theory Spec2Isabelle
  imports Main "HOL-Library.Word"
begin

unbundle bit_operations_syntax

section \<open>The worker thread of lwan: data model\<close>

text \<open>
  This theory embeds \<^verbatim>\<open>src/lib/lwan-thread.c\<close>: the per-worker death queue (an
  intrusive doubly linked list threaded through the connection table by indices), the
  coroutine resume logic that reprograms the epoll interest of a connection, the handoff of
  accepted descriptors, and the dispatch of the events of the worker's I/O loop.

  Modelled from the spec: \<^verbatim>\<open>struct lwan_connection\<close> is declared in \<^verbatim>\<open>lwan.h\<close>, which
  is not among the sources. The fields are those the spec lists for a connection slot and
  the source uses: \<^verbatim>\<open>flags\<close> (a bit set), \<^verbatim>\<open>time_to_die\<close> (a tick value, an
  \<^verbatim>\<open>unsigned int\<close> as the clock of the death queue is), \<^verbatim>\<open>coro\<close> (a coroutine or
  absent), and \<^verbatim>\<open>prev\<close> and \<^verbatim>\<open>next\<close> (signed 32-bit indices, \<^verbatim>\<open>-1\<close> for the
  sentinel), which are only copied and compared with zero, never computed with. The
  \<^verbatim>\<open>thread\<close> back pointer is never read by the functions embedded here and is left
  out. A coroutine is an opaque handle.
\<close>

type_synonym conn_flags = "32 word"

type_synonym coro = nat

record lwan_connection =
  flags :: conn_flags
  time_to_die :: "32 word"
  coro :: "coro option"
  prev :: int
  "next" :: int

text \<open>
  Modelled from the spec: the flag bits of \<^verbatim>\<open>enum lwan_connection_flags\<close> are declared
  in \<^verbatim>\<open>lwan.h\<close>, which is not among the sources. The spec names the flags
  (ALIVE, KEEP_ALIVE, SHOULD_RESUME, MUST_READ, WRITE_EVENTS_ARMED) as members of a bit set;
  each is one bit, at the position the header of lwan gives it.
\<close>

definition CONN_KEEP_ALIVE :: conn_flags where
  "CONN_KEEP_ALIVE = push_bit 0 1"

definition CONN_IS_ALIVE :: conn_flags where
  "CONN_IS_ALIVE = push_bit 1 1"

definition CONN_SHOULD_RESUME_CORO :: conn_flags where
  "CONN_SHOULD_RESUME_CORO = push_bit 2 1"

definition CONN_WRITE_EVENTS :: conn_flags where
  "CONN_WRITE_EVENTS = push_bit 3 1"

definition CONN_MUST_READ :: conn_flags where
  "CONN_MUST_READ = push_bit 4 1"

text \<open>
  Modelled from the spec: \<^verbatim>\<open>enum lwan_connection_coro_yield\<close> is declared in
  \<^verbatim>\<open>lwan.h\<close>. The spec orders the dispositions as \<^verbatim>\<open>ABORT (< MAY_RESUME)\<close>, and the
  comment in \<^verbatim>\<open>resume_coro_if_needed\<close> says that \<^verbatim>\<open>CONN_CORO_ABORT\<close> is \<^verbatim>\<open>-1\<close> and is
  told apart by a comparison with \<^verbatim>\<open>0\<close>. A yield value is the \<^verbatim>\<open>int\<close> handed to
  \<^verbatim>\<open>coro_yield\<close>. \<^verbatim>\<open>resume_coro_if_needed\<close> also tells \<^verbatim>\<open>CONN_CORO_MAY_RESUME\<close>
  from the yields above it; \<open>CONN_CORO_FINISHED\<close> stands for such a yield, with the next
  value of the enumeration.
\<close>

definition CONN_CORO_ABORT :: int where
  "CONN_CORO_ABORT = -1"

definition CONN_CORO_MAY_RESUME :: int where
  "CONN_CORO_MAY_RESUME = 0"

definition CONN_CORO_FINISHED :: int where
  "CONN_CORO_FINISHED = 1"

text \<open>
  \<^verbatim>\<open>struct death_queue\<close>. The \<^verbatim>\<open>lwan\<close> pointer is used for the connection table and
  the configured timeout only, which are fields here. \<^verbatim>\<open>conns\<close> is the process-wide
  table indexed by file descriptor; it has one slot for every descriptor the process can
  open, so it is a total function on the descriptor numbers.
\<close>

record death_queue =
  conns :: "nat \<Rightarrow> lwan_connection"
  head :: lwan_connection
  time :: "32 word"
  keep_alive_timeout :: "16 word"

text \<open>
  A \<^verbatim>\<open>struct lwan_connection *\<close> handled by the queue points either to the sentinel
  \<^verbatim>\<open>dq->head\<close> or to a slot of the table.
\<close>

datatype node = Head | Conn nat

definition deref :: "death_queue \<Rightarrow> node \<Rightarrow> lwan_connection" where
  "deref dq p = (case p of Head \<Rightarrow> head dq | Conn i \<Rightarrow> conns dq i)"

definition store :: "node \<Rightarrow> lwan_connection \<Rightarrow> death_queue \<Rightarrow> death_queue" where
  "store p v dq = (case p of Head \<Rightarrow> dq\<lparr>head := v\<rparr> | Conn i \<Rightarrow> dq\<lparr>conns := (conns dq)(i := v)\<rparr>)"

text \<open>The assignments \<^verbatim>\<open>p->next = v\<close>, \<^verbatim>\<open>p->prev = v\<close>, and so on.\<close>

definition set_next :: "node \<Rightarrow> int \<Rightarrow> death_queue \<Rightarrow> death_queue" where
  "set_next p v dq = store p ((deref dq p)\<lparr>next := v\<rparr>) dq"

definition set_prev :: "node \<Rightarrow> int \<Rightarrow> death_queue \<Rightarrow> death_queue" where
  "set_prev p v dq = store p ((deref dq p)\<lparr>prev := v\<rparr>) dq"

definition set_time_to_die :: "node \<Rightarrow> 32 word \<Rightarrow> death_queue \<Rightarrow> death_queue" where
  "set_time_to_die p v dq = store p ((deref dq p)\<lparr>time_to_die := v\<rparr>) dq"

definition set_flags :: "node \<Rightarrow> conn_flags \<Rightarrow> death_queue \<Rightarrow> death_queue" where
  "set_flags p v dq = store p ((deref dq p)\<lparr>flags := v\<rparr>) dq"

definition set_coro :: "node \<Rightarrow> coro option \<Rightarrow> death_queue \<Rightarrow> death_queue" where
  "set_coro p v dq = store p ((deref dq p)\<lparr>coro := v\<rparr>) dq"

section \<open>The death queue\<close>

definition death_queue_node_to_idx :: "node \<Rightarrow> int" where
  "death_queue_node_to_idx conn = (case conn of Head \<Rightarrow> - 1 | Conn i \<Rightarrow> int i)"

definition death_queue_idx_to_node :: "int \<Rightarrow> node" where
  "death_queue_idx_to_node idx = (if idx < 0 then Head else Conn (nat idx))"

text \<open>
  \<^verbatim>\<open>death_queue_insert\<close>: the statements in the source's order, each reading the
  memory the previous one left. The double assignment
  \<^verbatim>\<open>dq->head.prev = prev->next = idx\<close> writes two different fields.
\<close>

definition death_queue_insert :: "death_queue \<Rightarrow> node \<Rightarrow> death_queue" where
  "death_queue_insert dq new_node =
     (let dq1 = set_next new_node (- 1) dq;
          dq2 = set_prev new_node (prev (head dq1)) dq1;
          prev_node = death_queue_idx_to_node (prev (head dq2));
          idx = death_queue_node_to_idx new_node;
          dq3 = set_next prev_node idx dq2
      in set_prev Head idx dq3)"

text \<open>
  \<^verbatim>\<open>death_queue_remove\<close>: both neighbours are looked up first, then relinked, then the
  node's own links are reset to \<^verbatim>\<open>-1\<close>.
\<close>

definition death_queue_remove :: "death_queue \<Rightarrow> node \<Rightarrow> death_queue" where
  "death_queue_remove dq node =
     (let prev_node = death_queue_idx_to_node (prev (deref dq node));
          next_node = death_queue_idx_to_node (next (deref dq node));
          dq1 = set_prev next_node (prev (deref dq node)) dq;
          dq2 = set_next prev_node (next (deref dq1 node)) dq1;
          dq3 = set_prev node (- 1) dq2
      in set_next node (- 1) dq3)"

definition death_queue_empty :: "death_queue \<Rightarrow> bool" where
  "death_queue_empty dq = (next (head dq) < 0)"

definition death_queue_move_to_last :: "death_queue \<Rightarrow> node \<Rightarrow> death_queue" where
  "death_queue_move_to_last dq conn =
     (let dq1 = set_time_to_die conn (time dq) dq;
          dq2 = (if flags (deref dq1 conn) AND (CONN_KEEP_ALIVE OR CONN_SHOULD_RESUME_CORO) \<noteq> 0
                 then set_time_to_die conn
                        (time_to_die (deref dq1 conn) + ucast (keep_alive_timeout dq1)) dq1
                 else dq1)
      in death_queue_insert (death_queue_remove dq2 conn) conn)"

text \<open>
  \<^verbatim>\<open>death_queue_init\<close> runs on the uninitialised \<^verbatim>\<open>struct death_queue\<close> of
  \<^verbatim>\<open>thread_io_loop\<close>'s frame: it is given here as \<open>dq\<close>, together with the table and
  the timeout of the configuration.
\<close>

definition death_queue_init ::
  "death_queue \<Rightarrow> (nat \<Rightarrow> lwan_connection) \<Rightarrow> 16 word \<Rightarrow> death_queue" where
  "death_queue_init dq lwan_conns lwan_keep_alive_timeout =
     (let dq1 = dq\<lparr>conns := lwan_conns\<rparr>;
          dq2 = dq1\<lparr>time := 0\<rparr>;
          dq3 = dq2\<lparr>keep_alive_timeout := lwan_keep_alive_timeout\<rparr>;
          dq4 = set_prev Head (- 1) dq3
      in set_next Head (- 1) dq4)"

definition death_queue_epoll_timeout :: "death_queue \<Rightarrow> int" where
  "death_queue_epoll_timeout dq = (if death_queue_empty dq then - 1 else 1000)"

section \<open>The reactor, the coroutines and the environment\<close>

text \<open>
  The event masks of \<^verbatim>\<open><sys/epoll.h>\<close> on Linux.
\<close>

definition EPOLLIN :: "32 word" where
  "EPOLLIN = 0x001"

definition EPOLLOUT :: "32 word" where
  "EPOLLOUT = 0x004"

definition EPOLLERR :: "32 word" where
  "EPOLLERR = 0x008"

definition EPOLLHUP :: "32 word" where
  "EPOLLHUP = 0x010"

definition EPOLLRDHUP :: "32 word" where
  "EPOLLRDHUP = 0x2000"

definition EPOLLET :: "32 word" where
  "EPOLLET = push_bit 31 1"

text \<open>
  A \<^verbatim>\<open>struct epoll_event\<close>: the mask and the user pointer, which is \<^verbatim>\<open>NULL\<close> or
  the address of a slot of the connection table (given by the slot's index).
\<close>

record epoll_event =
  events :: "32 word"
  data_ptr :: "nat option"

definition events_by_write_flag :: "32 word list" where
  "events_by_write_flag =
     [EPOLLOUT OR EPOLLRDHUP OR EPOLLERR,
      EPOLLIN OR EPOLLRDHUP OR EPOLLERR OR EPOLLET]"

datatype epoll_op = EPOLL_CTL_ADD | EPOLL_CTL_MOD

text \<open>
  What a worker acts on: its death queue (with the connection table), the interest list
  the kernel keeps for the worker's epoll descriptor, and the calls the worker has made to
  the kernel and to the status printer, in order.
\<close>

datatype call =
    Epoll_ctl epoll_op nat epoll_event
  | Close nat
  | Status_error string
  | Status_perror string

record thread_state =
  dqueue :: death_queue
  interest :: "nat \<Rightarrow> epoll_event option"
  calls :: "call list"

text \<open>
  \<^verbatim>\<open>epoll_ctl(epoll_fd, op, fd, &event)\<close>. Whether the kernel accepts the call is the
  environment's answer \<open>ok\<close>; an accepted call replaces the entry of \<open>fd\<close>, a refused one
  (a negative return value) leaves the interest list as it was.
\<close>

definition epoll_ctl ::
  "thread_state \<Rightarrow> epoll_op \<Rightarrow> nat \<Rightarrow> epoll_event \<Rightarrow> bool \<Rightarrow> thread_state" where
  "epoll_ctl s op fd event ok =
     (let s1 = s\<lparr>calls := calls s @ [Epoll_ctl op fd event]\<rparr>
      in if ok then s1\<lparr>interest := (interest s1)(fd \<mapsto> event)\<rparr> else s1)"

text \<open>
  \<^verbatim>\<open>close(fd)\<close>: the kernel also drops a closed descriptor from the interest list.
\<close>

definition close_fd :: "thread_state \<Rightarrow> nat \<Rightarrow> thread_state" where
  "close_fd s fd = s\<lparr>calls := calls s @ [Close fd], interest := (interest s)(fd := None)\<rparr>"

definition lwan_status_error :: "thread_state \<Rightarrow> string \<Rightarrow> thread_state" where
  "lwan_status_error s msg = s\<lparr>calls := calls s @ [Status_error msg]\<rparr>"

definition lwan_status_perror :: "thread_state \<Rightarrow> string \<Rightarrow> thread_state" where
  "lwan_status_perror s msg = s\<lparr>calls := calls s @ [Status_perror msg]\<rparr>"

text \<open>
  One run of a coroutine, from \<^verbatim>\<open>coro_resume\<close> to its next \<^verbatim>\<open>coro_yield\<close>: the value
  it yields and the flags of its connection as it leaves them (the request pipeline sets
  and clears \<^verbatim>\<open>CONN_KEEP_ALIVE\<close> and \<^verbatim>\<open>CONN_MUST_READ\<close> through \<^verbatim>\<open>request.conn\<close>).
  The queue and the links of the connection are out of a coroutine's reach.
\<close>

record coro_run =
  yield_result :: int
  flags_left :: conn_flags

text \<open>An \<^verbatim>\<open>assert\<close> that fails ends the process.\<close>

datatype abort = Assertion_failed

section \<open>Destroying, resuming and spawning\<close>

text \<open>
  \<^verbatim>\<open>destroy_coro\<close>. A connection is given by the index of its slot, which is its file
  descriptor. Modelled from the spec: \<^verbatim>\<open>lwan_connection_get_fd\<close> is not among the
  sources; the spec has the descriptor identify the slot (\<^verbatim>\<open>slot_index == fd\<close>).
  \<^verbatim>\<open>coro_free\<close> belongs to the coroutine runtime; of its effect only the reset of
  \<^verbatim>\<open>conn->coro\<close> is kept.
\<close>

definition destroy_coro :: "thread_state \<Rightarrow> nat \<Rightarrow> thread_state" where
  "destroy_coro s fd =
     (let conn = Conn fd;
          s1 = s\<lparr>dqueue := death_queue_remove (dqueue s) conn\<rparr>;
          s2 = (if coro (deref (dqueue s1) conn) \<noteq> None
                then s1\<lparr>dqueue := set_coro conn None (dqueue s1)\<rparr> else s1)
      in if flags (deref (dqueue s2) conn) AND CONN_IS_ALIVE \<noteq> 0
         then close_fd
                (s2\<lparr>dqueue := set_flags conn (flags (deref (dqueue s2) conn) AND NOT CONN_IS_ALIVE) (dqueue s2)\<rparr>)
                fd
         else s2)"

text \<open>
  The end of \<^verbatim>\<open>resume_coro_if_needed\<close>, from the declaration of \<^verbatim>\<open>event\<close> on: the
  entry is reprogrammed with the mask the table gives for \<^verbatim>\<open>write_events\<close>, a refused
  call is reported, and \<^verbatim>\<open>CONN_WRITE_EVENTS\<close> is flipped in either case.
\<close>

definition reprogram :: "thread_state \<Rightarrow> nat \<Rightarrow> bool \<Rightarrow> bool \<Rightarrow> thread_state" where
  "reprogram s fd write_events ctl_ok =
     (let conn = Conn fd;
          event = \<lparr>events = events_by_write_flag ! (if write_events then 1 else 0),
                   data_ptr = Some fd\<rparr>;
          s1 = epoll_ctl s EPOLL_CTL_MOD fd event ctl_ok;
          s2 = (if ctl_ok then s1 else lwan_status_perror s1 ''epoll_ctl'')
      in s2\<lparr>dqueue := set_flags conn (flags (deref (dqueue s2) conn) XOR CONN_WRITE_EVENTS) (dqueue s2)\<rparr>)"

text \<open>
  \<^verbatim>\<open>resume_coro_if_needed\<close>. \<open>run\<close> is what the coroutine does when it is resumed and
  \<open>ctl_ok\<close> the kernel's answer to the \<^verbatim>\<open>EPOLL_CTL_MOD\<close>, should one be made.
\<close>

definition resume_coro_if_needed ::
  "thread_state \<Rightarrow> nat \<Rightarrow> coro_run \<Rightarrow> bool \<Rightarrow> abort + thread_state" where
  "resume_coro_if_needed s fd run ctl_ok =
     (let conn = Conn fd in
      if coro (deref (dqueue s) conn) = None then Inl Assertion_failed
      else if flags (deref (dqueue s) conn) AND CONN_SHOULD_RESUME_CORO = 0 then Inr s
      else
        let s1 = s\<lparr>dqueue := set_flags conn (flags_left run) (dqueue s)\<rparr>
        in if yield_result run < CONN_CORO_MAY_RESUME then Inr (destroy_coro s1 fd)
           else if flags (deref (dqueue s1) conn) AND CONN_MUST_READ \<noteq> 0
           then Inr (reprogram s1 fd True ctl_ok)
           else
             let should_resume_coro = (yield_result run = CONN_CORO_MAY_RESUME);
                 f = flags (deref (dqueue s1) conn);
                 s2 = s1\<lparr>dqueue := set_flags conn
                        (if should_resume_coro then f OR CONN_SHOULD_RESUME_CORO
                         else f AND NOT CONN_SHOULD_RESUME_CORO) (dqueue s1)\<rparr>;
                 write_events = (flags (deref (dqueue s2) conn) AND CONN_WRITE_EVENTS \<noteq> 0)
             in if should_resume_coro = write_events then Inr s2
                else Inr (reprogram s2 fd write_events ctl_ok))"

text \<open>
  \<^verbatim>\<open>spawn_coro\<close>. \<open>new_coro\<close> is what \<^verbatim>\<open>coro_new\<close> returns: \<open>None\<close> for \<^verbatim>\<open>NULL\<close>.
\<close>

definition spawn_coro :: "thread_state \<Rightarrow> nat \<Rightarrow> coro option \<Rightarrow> abort + thread_state" where
  "spawn_coro s fd new_coro =
     (let conn = Conn fd in
      if coro (deref (dqueue s) conn) \<noteq> None then Inl Assertion_failed
      else if flags (deref (dqueue s) conn) AND CONN_IS_ALIVE \<noteq> 0 then Inl Assertion_failed
      else if flags (deref (dqueue s) conn) AND CONN_SHOULD_RESUME_CORO \<noteq> 0 then Inl Assertion_failed
      else
        let s1 = s\<lparr>dqueue := set_coro conn new_coro (dqueue s)\<rparr>
        in if coro (deref (dqueue s1) conn) = None
           then Inr (lwan_status_error s1 ''Could not create coroutine'')
           else
             let d1 = set_flags conn (CONN_IS_ALIVE OR CONN_SHOULD_RESUME_CORO) (dqueue s1);
                 d2 = set_time_to_die conn (time d1 + ucast (keep_alive_timeout d1)) d1
             in Inr (s1\<lparr>dqueue := death_queue_insert d2 conn\<rparr>))"

section \<open>Timeouts\<close>

text \<open>
  The loop of \<^verbatim>\<open>death_queue_kill_waiting\<close>, after the increment of \<^verbatim>\<open>dq->time\<close>.
  Inside the loop \<^verbatim>\<open>dq->head.next\<close> is not negative, so \<^verbatim>\<open>death_queue_idx_to_node\<close>
  yields a slot of the table; the case of the sentinel is there for the case distinction
  only and is never taken. Nothing in the code bounds the number of iterations: on a table
  whose links do not form a queue the loop may run on, which is the value \<open>None\<close>.
  \<^verbatim>\<open>death_queue_kill_all\<close> is the same loop without the test of the deadline.
\<close>

partial_function (option) kill_waiting_loop :: "thread_state \<Rightarrow> thread_state option" where
  [code]: "kill_waiting_loop s =
     (if death_queue_empty (dqueue s) then Some (s\<lparr>dqueue := (dqueue s)\<lparr>time := 0\<rparr>\<rparr>)
      else
        (case death_queue_idx_to_node (next (head (dqueue s))) of
           Head \<Rightarrow> Some s
         | Conn fd \<Rightarrow>
             if time_to_die (deref (dqueue s) (Conn fd)) > time (dqueue s) then Some s
             else kill_waiting_loop (destroy_coro s fd)))"

definition death_queue_kill_waiting :: "thread_state \<Rightarrow> thread_state option" where
  "death_queue_kill_waiting s = kill_waiting_loop (s\<lparr>dqueue := (dqueue s)\<lparr>time := time (dqueue s) + 1\<rparr>\<rparr>)"

partial_function (option) death_queue_kill_all :: "thread_state \<Rightarrow> thread_state option" where
  [code]: "death_queue_kill_all s =
     (if death_queue_empty (dqueue s) then Some s
      else
        (case death_queue_idx_to_node (next (head (dqueue s))) of
           Head \<Rightarrow> Some s
         | Conn fd \<Rightarrow> death_queue_kill_all (destroy_coro s fd)))"

section \<open>Handoff and the event loop\<close>

text \<open>
  \<^verbatim>\<open>lwan_thread_add_client\<close>, run by the acceptor before the descriptor is pushed:
  the slot is overwritten by a structure whose fields are zero but for \<^verbatim>\<open>thread\<close>.
\<close>

definition zero_connection :: lwan_connection where
  "zero_connection = \<lparr>flags = 0, time_to_die = 0, coro = None, prev = 0, next = 0\<rparr>"

definition lwan_thread_add_client :: "thread_state \<Rightarrow> nat \<Rightarrow> thread_state" where
  "lwan_thread_add_client s fd = s\<lparr>dqueue := store (Conn fd) zero_connection (dqueue s)\<rparr>"

text \<open>
  The environment's answers while one pending descriptor is taken in: whether the
  \<^verbatim>\<open>EPOLL_CTL_ADD\<close> is accepted, what \<^verbatim>\<open>coro_new\<close> returns, the first run of the
  coroutine, and whether the \<^verbatim>\<open>EPOLL_CTL_MOD\<close> of the first resume is accepted.
\<close>

record handoff =
  h_add_ok :: bool
  h_new_coro :: "coro option"
  h_first_run :: coro_run
  h_mod_ok :: bool

text \<open>
  The loop of \<^verbatim>\<open>accept_nudge\<close> over the descriptors that \<^verbatim>\<open>spsc_queue_pop\<close> returns.
  A popped value is a descriptor cast to a pointer, so the descriptor \<^verbatim>\<open>0\<close> reads as
  \<^verbatim>\<open>NULL\<close> and ends the loop as an empty queue does. The \<^verbatim>\<open>epoll_event\<close> of the
  \<^verbatim>\<open>EPOLL_CTL_ADD\<close> is initialised with its mask only, which leaves \<^verbatim>\<open>data\<close> zero.
\<close>

fun accept_loop :: "thread_state \<Rightarrow> (nat \<times> handoff) list \<Rightarrow> abort + thread_state" where
  "accept_loop s [] = Inr s"
| "accept_loop s ((fd, env) # pending_fds) =
     (if fd = 0 then Inr s
      else
        let ep_event = \<lparr>events = events_by_write_flag ! 1, data_ptr = None\<rparr>;
            s1 = epoll_ctl s EPOLL_CTL_ADD fd ep_event (h_add_ok env)
        in if h_add_ok env
           then (case spawn_coro s1 fd (h_new_coro env) of
                   Inl a \<Rightarrow> Inl a
                 | Inr s2 \<Rightarrow>
                     (case resume_coro_if_needed s2 fd (h_first_run env) (h_mod_ok env) of
                        Inl a \<Rightarrow> Inl a
                      | Inr s3 \<Rightarrow> accept_loop s3 pending_fds))
           else accept_loop (lwan_status_perror s1 ''epoll_ctl'') pending_fds)"

text \<open>
  \<^verbatim>\<open>accept_nudge\<close>: \<open>read_ok\<close> tells whether the \<^verbatim>\<open>read\<close> on the wakeup descriptor
  succeeded.
\<close>

definition accept_nudge ::
  "thread_state \<Rightarrow> bool \<Rightarrow> (nat \<times> handoff) list \<Rightarrow> abort + thread_state" where
  "accept_nudge s read_ok pending_fds = (if read_ok then accept_loop s pending_fds else Inr s)"

text \<open>
  The environment's answers while one reported event is handled: for the wakeup descriptor
  the result of the \<^verbatim>\<open>read\<close> and the content of the handoff queue, for a connection the
  run of its coroutine and the kernel's answer to a reprogramming.
\<close>

record event_env =
  ev_read_ok :: bool
  ev_pending :: "(nat \<times> handoff) list"
  ev_run :: coro_run
  ev_ctl_ok :: bool

text \<open>
  The \<^verbatim>\<open>for\<close> loop of \<^verbatim>\<open>thread_io_loop\<close> over the events that \<^verbatim>\<open>epoll_wait\<close>
  reported.
\<close>

fun process_events ::
  "thread_state \<Rightarrow> (epoll_event \<times> event_env) list \<Rightarrow> abort + thread_state" where
  "process_events s [] = Inr s"
| "process_events s ((ep_event, env) # rest) =
     (case data_ptr ep_event of
        None \<Rightarrow>
          (case accept_nudge s (ev_read_ok env) (ev_pending env) of
             Inl a \<Rightarrow> Inl a
           | Inr s1 \<Rightarrow> process_events s1 rest)
      | Some conn \<Rightarrow>
          if events ep_event AND (EPOLLRDHUP OR EPOLLHUP) \<noteq> 0
          then process_events (destroy_coro s conn) rest
          else
            (case resume_coro_if_needed s conn (ev_run env) (ev_ctl_ok env) of
               Inl a \<Rightarrow> Inl a
             | Inr s1 \<Rightarrow>
                 process_events
                   (s1\<lparr>dqueue := death_queue_move_to_last (dqueue s1) (Conn conn)\<rparr>) rest))"

section \<open>The queue as a sequence\<close>

text \<open>
  The links of consecutive nodes of a list agree: each node's \<^verbatim>\<open>next\<close> is the index
  of its successor, whose \<^verbatim>\<open>prev\<close> is the index of the node.
\<close>

fun chained :: "death_queue \<Rightarrow> node list \<Rightarrow> bool" where
  "chained q (a # b # rest) =
     (next (deref q a) = death_queue_node_to_idx b
      \<and> prev (deref q b) = death_queue_node_to_idx a
      \<and> chained q (b # rest))"
| "chained q [a] = True"
| "chained q [] = True"

text \<open>
  \<open>queue_of q xs\<close>: the death queue holds exactly the slots \<open>xs\<close>, in this order: the
  ring that starts at the sentinel, runs through the slots and ends at the sentinel is
  linked in both directions, and no slot occurs twice. Following \<^verbatim>\<open>next\<close> from the
  sentinel visits \<open>xs\<close> from left to right.
\<close>

definition queue_of :: "death_queue \<Rightarrow> nat list \<Rightarrow> bool" where
  "queue_of q xs = (distinct xs \<and> chained q (Head # map Conn xs @ [Head]))"

text \<open>
  The deadline that \<^verbatim>\<open>death_queue_move_to_last\<close> gives a connection.
\<close>

definition move_deadline :: "death_queue \<Rightarrow> nat \<Rightarrow> 32 word" where
  "move_deadline q c =
     (if flags (conns q c) AND (CONN_KEEP_ALIVE OR CONN_SHOULD_RESUME_CORO) \<noteq> 0
      then time q + ucast (keep_alive_timeout q) else time q)"

text \<open>
  Tests on a slot: its deadline has passed at the queue's clock, it is alive, and its
  deadline will have passed once \<^verbatim>\<open>death_queue_kill_waiting\<close> has advanced the clock.
\<close>

definition expired :: "death_queue \<Rightarrow> nat \<Rightarrow> bool" where
  "expired q i = (time_to_die (conns q i) \<le> time q)"

definition alive :: "death_queue \<Rightarrow> nat \<Rightarrow> bool" where
  "alive q i = (flags (conns q i) AND CONN_IS_ALIVE \<noteq> 0)"

definition overdue :: "thread_state \<Rightarrow> nat \<Rightarrow> bool" where
  "overdue s i = (time_to_die (conns (dqueue s) i) \<le> time (dqueue s) + 1)"

section \<open>Runs of a worker\<close>

text \<open>
  The states a worker reaches from an initialised death queue over a table without live
  slots, by the following steps. The acceptor overwrites the slot of a descriptor that is
  not alive (\<^verbatim>\<open>lwan_thread_add_client\<close>). \<^verbatim>\<open>spawn_coro\<close> returns with a new
  coroutine. An event for a live connection is handled by \<^verbatim>\<open>resume_coro_if_needed\<close>
  and \<^verbatim>\<open>death_queue_move_to_last\<close>, where the coroutine does not abort, leaves
  \<^verbatim>\<open>CONN_IS_ALIVE\<close> set, and the connection has \<^verbatim>\<open>CONN_KEEP_ALIVE\<close> or
  \<^verbatim>\<open>CONN_SHOULD_RESUME_CORO\<close> set when it is moved. A hangup destroys a live
  connection. A timeout runs \<^verbatim>\<open>death_queue_kill_waiting\<close>, at a clock from which
  one more tick and the keep-alive timeout do not leave 32 bits.
\<close>

inductive reachable :: "thread_state \<Rightarrow> bool" where
  start:
    "\<forall>i. flags (table i) AND CONN_IS_ALIVE = 0 \<Longrightarrow>
     reachable \<lparr>dqueue = death_queue_init q table kat, interest = itr, calls = cs\<rparr>"
| handoff:
    "reachable s \<Longrightarrow> flags (conns (dqueue s) fd) AND CONN_IS_ALIVE = 0 \<Longrightarrow>
     reachable (lwan_thread_add_client s fd)"
| spawn:
    "reachable s \<Longrightarrow> spawn_coro s fd (Some c) = Inr s' \<Longrightarrow> reachable s'"
| resume:
    "reachable s \<Longrightarrow> flags (conns (dqueue s) fd) AND CONN_IS_ALIVE \<noteq> 0 \<Longrightarrow>
     CONN_CORO_MAY_RESUME \<le> yield_result r \<Longrightarrow>
     flags_left r AND CONN_IS_ALIVE \<noteq> 0 \<Longrightarrow>
     resume_coro_if_needed s fd r ok = Inr s1 \<Longrightarrow>
     flags (conns (dqueue s1) fd) AND (CONN_KEEP_ALIVE OR CONN_SHOULD_RESUME_CORO) \<noteq> 0 \<Longrightarrow>
     reachable (s1\<lparr>dqueue := death_queue_move_to_last (dqueue s1) (Conn fd)\<rparr>)"
| hangup:
    "reachable s \<Longrightarrow> flags (conns (dqueue s) fd) AND CONN_IS_ALIVE \<noteq> 0 \<Longrightarrow>
     reachable (destroy_coro s fd)"
| timeout:
    "reachable s \<Longrightarrow>
     unat (time (dqueue s)) + 1 + unat (keep_alive_timeout (dqueue s)) < 2 ^ 32 \<Longrightarrow>
     death_queue_kill_waiting s = Some s' \<Longrightarrow> reachable s'"

text \<open>
  The invariant of these runs on the sequence \<open>xs\<close> of the queue: exactly the live slots
  are linked, deadlines do not decrease along the queue, and none lies beyond the clock
  plus the keep-alive timeout, which fits 32 bits.
\<close>

definition deadline :: "death_queue \<Rightarrow> nat \<Rightarrow> 32 word" where
  "deadline q i = time_to_die (conns q i)"

definition queue_inv :: "death_queue \<Rightarrow> nat list \<Rightarrow> bool" where
  "queue_inv q xs =
     (queue_of q xs
      \<and> (\<forall>i. (i \<in> set xs) = alive q i)
      \<and> sorted (map (deadline q) xs)
      \<and> (\<forall>i\<in>set xs. unat (deadline q i) \<le> unat (time q) + unat (keep_alive_timeout q))
      \<and> unat (time q) + unat (keep_alive_timeout q) < 2 ^ 32)"

section \<open>Interest directions\<close>

text \<open>
  The direction of a connection's readiness interest. \<open>armed\<close> is the direction that the
  flags record (\<^verbatim>\<open>CONN_WRITE_EVENTS\<close> set: write), \<open>interest_arm\<close> the direction of an
  entry of the kernel's interest list, \<open>arm_events\<close> the mask that
  \<^verbatim>\<open>events_by_write_flag\<close> holds for a direction.
\<close>

datatype arm = Arm_read | Arm_write

definition armed :: "conn_flags \<Rightarrow> arm" where
  "armed f = (if f AND CONN_WRITE_EVENTS \<noteq> 0 then Arm_write else Arm_read)"

definition interest_arm :: "epoll_event \<Rightarrow> arm" where
  "interest_arm ev = (if events ev AND EPOLLOUT \<noteq> 0 then Arm_write else Arm_read)"

definition arm_events :: "arm \<Rightarrow> 32 word" where
  "arm_events a =
     (case a of
        Arm_read \<Rightarrow> EPOLLIN OR EPOLLRDHUP OR EPOLLERR OR EPOLLET
      | Arm_write \<Rightarrow> EPOLLOUT OR EPOLLRDHUP OR EPOLLERR)"

text \<open>
  The target arm in the words of the specification: read when \<^verbatim>\<open>MUST_READ\<close> is set,
  read when the yield was \<^verbatim>\<open>MAY_RESUME\<close>, write otherwise.
\<close>

definition spec_target_arm :: "conn_flags \<Rightarrow> int \<Rightarrow> arm" where
  "spec_target_arm f y =
     (if f AND CONN_MUST_READ \<noteq> 0 then Arm_read
      else if y = CONN_CORO_MAY_RESUME then Arm_read else Arm_write)"

text \<open>
  The target arm that \<^verbatim>\<open>resume_coro_if_needed\<close> works towards: read when
  \<^verbatim>\<open>CONN_MUST_READ\<close> is set; otherwise write when the coroutine may be resumed (it yielded
  \<^verbatim>\<open>CONN_CORO_MAY_RESUME\<close>) and read when it yielded anything greater.
\<close>

definition target_arm :: "conn_flags \<Rightarrow> int \<Rightarrow> arm" where
  "target_arm f y =
     (if f AND CONN_MUST_READ \<noteq> 0 then Arm_read
      else if y = CONN_CORO_MAY_RESUME then Arm_write else Arm_read)"

section \<open>Example states\<close>

text \<open>
  A worker with a keep-alive timeout of five ticks, right after \<^verbatim>\<open>death_queue_init\<close>,
  on a zeroed connection table and an empty interest list.
\<close>

definition blank_queue :: death_queue where
  "blank_queue =
     \<lparr>conns = (\<lambda>_. zero_connection), head = zero_connection, time = 0,
      keep_alive_timeout = 0\<rparr>"

definition start_state :: thread_state where
  "start_state =
     \<lparr>dqueue = death_queue_init blank_queue (\<lambda>_. zero_connection) 5,
      interest = Map.empty, calls = []\<rparr>"

text \<open>
  Runs of a coroutine: one that needs more input (the pipeline sets \<^verbatim>\<open>CONN_MUST_READ\<close>
  and yields \<^verbatim>\<open>CONN_CORO_MAY_RESUME\<close>), one that yields \<^verbatim>\<open>CONN_CORO_MAY_RESUME\<close>
  with the flags as \<^verbatim>\<open>spawn_coro\<close> set them, one that yields \<^verbatim>\<open>CONN_CORO_FINISHED\<close>,
  and one that aborts.
\<close>

definition must_read_run :: coro_run where
  "must_read_run =
     \<lparr>yield_result = CONN_CORO_MAY_RESUME,
      flags_left = CONN_IS_ALIVE OR CONN_SHOULD_RESUME_CORO OR CONN_MUST_READ\<rparr>"

definition may_resume_run :: coro_run where
  "may_resume_run =
     \<lparr>yield_result = CONN_CORO_MAY_RESUME,
      flags_left = CONN_IS_ALIVE OR CONN_SHOULD_RESUME_CORO\<rparr>"

definition finished_run :: coro_run where
  "finished_run =
     \<lparr>yield_result = CONN_CORO_FINISHED,
      flags_left = CONN_IS_ALIVE OR CONN_SHOULD_RESUME_CORO\<rparr>"

definition abort_run :: coro_run where
  "abort_run =
     \<lparr>yield_result = CONN_CORO_ABORT,
      flags_left = CONN_IS_ALIVE OR CONN_SHOULD_RESUME_CORO\<rparr>"

text \<open>A descriptor handed off by the acceptor, with the run its coroutine makes first.\<close>

definition client :: "nat \<Rightarrow> coro_run \<Rightarrow> nat \<times> handoff" where
  "client fd r = (fd, \<lparr>h_add_ok = True, h_new_coro = Some fd, h_first_run = r, h_mod_ok = True\<rparr>)"

text \<open>
  Descriptor 7 after \<^verbatim>\<open>lwan_thread_add_client\<close>, the \<^verbatim>\<open>EPOLL_CTL_ADD\<close> of
  \<^verbatim>\<open>accept_nudge\<close> and \<^verbatim>\<open>spawn_coro\<close>, before its first resume.
\<close>

definition spawned_state :: thread_state where
  "spawned_state =
     projr (spawn_coro
       (epoll_ctl (lwan_thread_add_client start_state 7) EPOLL_CTL_ADD 7
          \<lparr>events = events_by_write_flag ! 1, data_ptr = None\<rparr> True)
       7 (Some 7))"

text \<open>An event reported for a connection, and the environment in which it is handled.\<close>

definition conn_event :: "nat \<Rightarrow> 32 word \<Rightarrow> coro_run \<Rightarrow> epoll_event \<times> event_env" where
  "conn_event fd m r =
     (\<lparr>events = m, data_ptr = Some fd\<rparr>,
      \<lparr>ev_read_ok = True, ev_pending = [], ev_run = r, ev_ctl_ok = True\<rparr>)"

text \<open>
  Descriptors 7 and 8 handed off together; both coroutines wait for input after their
  first run. The queue holds 7, then 8.
\<close>

definition two_clients :: thread_state where
  "two_clients =
     projr (accept_nudge (lwan_thread_add_client (lwan_thread_add_client start_state 7) 8)
       True [client 7 must_read_run, client 8 must_read_run])"

text \<open>
  The same worker four ticks later, and after a further event for 8 whose coroutine keeps
  waiting for input: 7 is due at tick 5 and 8 at tick 9.
\<close>

definition later :: "32 word \<Rightarrow> thread_state \<Rightarrow> thread_state" where
  "later t s = s\<lparr>dqueue := (dqueue s)\<lparr>time := t\<rparr>\<rparr>"

definition aged_clients :: thread_state where
  "aged_clients =
     projr (process_events (later 4 two_clients) [conn_event 8 EPOLLIN must_read_run])"

text \<open>
  A run of the worker: 7 and 8 are handed off and spawned, one tick passes, and an event
  for 7 is handled whose coroutine keeps waiting for input.
\<close>

definition run_a :: thread_state where
  "run_a = projr (spawn_coro (lwan_thread_add_client start_state 7) 7 (Some 7))"

definition run_b :: thread_state where
  "run_b = projr (spawn_coro (lwan_thread_add_client run_a 8) 8 (Some 8))"

definition run_c :: thread_state where
  "run_c = later 1 run_b"

definition run_d :: thread_state where
  "run_d =
     (projr (resume_coro_if_needed run_c 7 must_read_run True))
       \<lparr>dqueue := death_queue_move_to_last
          (dqueue (projr (resume_coro_if_needed run_c 7 must_read_run True))) (Conn 7)\<rparr>"

section \<open>Basic facts about the store\<close>

lemma deref_store: "deref (store p v dq) q = (if q = p then v else deref dq q)"
  by (cases p; cases q) (simp_all add: deref_def store_def)

lemma store_fields [simp]:
  "time (store p v dq) = time dq"
  "keep_alive_timeout (store p v dq) = keep_alive_timeout dq"
  by (cases p; simp add: store_def)+

lemma head_store: "head (store p v q) = (if p = Head then v else head q)"
  by (cases p) (simp_all add: store_def)

lemma conns_store: "conns (store p v q) i = (if p = Conn i then v else conns q i)"
  by (cases p) (simp_all add: store_def)

lemma death_queue_ext:
  assumes "\<And>p. deref a p = deref b p" and "time a = time b"
    and "keep_alive_timeout a = keep_alive_timeout b"
  shows "a = (b :: death_queue)"
proof -
  have "head a = head b" using assms(1) [of Head] by (simp add: deref_def)
  moreover have "conns a = conns b"
  proof
    fix i show "conns a i = conns b i" using assms(1) [of "Conn i"] by (simp add: deref_def)
  qed
  ultimately show ?thesis using assms(2,3) by simp
qed

lemma idx_node_inverse [simp]: "death_queue_idx_to_node (death_queue_node_to_idx p) = p"
  by (cases p) (simp_all add: death_queue_idx_to_node_def death_queue_node_to_idx_def)

lemma idx_to_node_minus1 [simp]: "death_queue_idx_to_node (- 1) = Head"
  by (simp add: death_queue_idx_to_node_def)

lemma node_to_idx_inject [simp]:
  "(death_queue_node_to_idx p = death_queue_node_to_idx q) = (p = q)"
  by (cases p; cases q) (simp_all add: death_queue_node_to_idx_def)

lemma node_to_idx_Head [simp]: "death_queue_node_to_idx Head = - 1"
  by (simp add: death_queue_node_to_idx_def)

lemma node_to_idx_Conn [simp]: "death_queue_node_to_idx (Conn i) = int i"
  by (simp add: death_queue_node_to_idx_def)

lemmas setters = set_next_def set_prev_def set_time_to_die_def set_flags_def set_coro_def

lemma store_same [simp]: "store p (deref q p) q = q"
  by (cases p) (simp_all add: store_def deref_def)

lemma deref_Conn: "deref q (Conn i) = conns q i"
  by (simp add: deref_def)

lemma deref_Head: "deref q Head = head q"
  by (simp add: deref_def)

lemma conns_set_flags:
  "conns (set_flags (Conn i) v q) j = (if j = i then (conns q i)\<lparr>flags := v\<rparr> else conns q j)"
  by (simp add: set_flags_def store_def deref_def)

subsection \<open>Flag tests\<close>

lemma test_pow: "(f AND push_bit k 1 = 0) = (\<not> bit f k)" for f :: "32 word"
  by (simp add: push_bit_of_1 and_exp_eq_0_iff_not_bit)

lemma test_or: "(f AND (a OR b) = 0) = (f AND a = 0 \<and> f AND b = 0)" for f :: "32 word"
  by (simp add: bit.conj_disj_distrib or_eq_0_iff)

lemma bit_or_pow: "bit (f OR push_bit k 1) n = (bit f n \<or> (n = k \<and> k < 32))"
  for f :: "32 word"
  by (auto simp add: bit_simps)

lemma bit_andnot_pow: "bit (f AND NOT (push_bit k 1)) n = (bit f n \<and> n \<noteq> k)"
  for f :: "32 word"
  by (auto simp add: bit_simps dest: bit_imp_le_length)

lemma bit_xor_pow: "bit (f XOR push_bit k 1) n = (bit f n \<noteq> (n = k \<and> k < 32))"
  for f :: "32 word"
  by (auto simp add: bit_simps)

lemmas flag_tests =
  test_pow [of _ 0, folded CONN_KEEP_ALIVE_def]
  test_pow [of _ 1, folded CONN_IS_ALIVE_def]
  test_pow [of _ 2, folded CONN_SHOULD_RESUME_CORO_def]
  test_pow [of _ 3, folded CONN_WRITE_EVENTS_def]
  test_pow [of _ 4, folded CONN_MUST_READ_def]
  test_or

lemmas flag_bits =
  bit_or_pow [of _ 1, folded CONN_IS_ALIVE_def, simplified]
  bit_or_pow [of _ 2, folded CONN_SHOULD_RESUME_CORO_def, simplified]
  bit_andnot_pow [of _ 2, folded CONN_SHOULD_RESUME_CORO_def]
  bit_andnot_pow [of _ 1, folded CONN_IS_ALIVE_def]
  bit_xor_pow [of _ 3, folded CONN_WRITE_EVENTS_def, simplified]

lemma bit_pow: "bit (push_bit k 1 :: 32 word) n = (n = k \<and> k < 32)"
  by (auto simp add: bit_simps)

lemmas flag_consts =
  bit_pow [of 0, folded CONN_KEEP_ALIVE_def, simplified]
  bit_pow [of 1, folded CONN_IS_ALIVE_def, simplified]
  bit_pow [of 2, folded CONN_SHOULD_RESUME_CORO_def, simplified]
  bit_pow [of 3, folded CONN_WRITE_EVENTS_def, simplified]
  bit_pow [of 4, folded CONN_MUST_READ_def, simplified]

section \<open>Insertion and removal on the sequence\<close>



lemma chained_append:
  "chained q (as @ b # cs) = (chained q (as @ [b]) \<and> chained q (b # cs))"
  by (induction q as rule: chained.induct) auto

lemma chained_frame:
  assumes "\<And>p. p \<in> set (butlast ys) \<Longrightarrow> next (deref q' p) = next (deref q p)"
    and "\<And>p. p \<in> set (tl ys) \<Longrightarrow> prev (deref q' p) = prev (deref q p)"
  shows "chained q' ys = chained q ys"
  using assms
proof (induction q ys rule: chained.induct)
  case (1 q a b rest)
  have "chained q' (b # rest) = chained q (b # rest)"
    by (rule 1) (use 1 in auto)
  moreover have "next (deref q' a) = next (deref q a)"
    using 1(2) [of a] by simp
  moreover have "prev (deref q' b) = prev (deref q b)"
    using 1(3) [of b] by simp
  ultimately show ?case by simp
qed simp_all

lemma remove_next:
  "next (deref (death_queue_remove q n) p) =
     (if p = n then - 1
      else if p = death_queue_idx_to_node (prev (deref q n)) then next (deref q n)
      else next (deref q p))"
  by (simp add: death_queue_remove_def Let_def setters deref_store)

lemma remove_prev:
  "prev (deref (death_queue_remove q n) p) =
     (if p = n then - 1
      else if p = death_queue_idx_to_node (next (deref q n)) then prev (deref q n)
      else prev (deref q p))"
  by (simp add: death_queue_remove_def Let_def setters deref_store)

lemma remove_fields [simp]:
  "flags (deref (death_queue_remove q n) p) = flags (deref q p)"
  "coro (deref (death_queue_remove q n) p) = coro (deref q p)"
  "time_to_die (deref (death_queue_remove q n) p) = time_to_die (deref q p)"
  "time (death_queue_remove q n) = time q"
  "keep_alive_timeout (death_queue_remove q n) = keep_alive_timeout q"
  by (simp_all add: death_queue_remove_def Let_def setters deref_store)

lemma insert_next:
  "next (deref (death_queue_insert q (Conn c)) p) =
     (if p = death_queue_idx_to_node (prev (head q)) then int c
      else if p = Conn c then - 1
      else next (deref q p))"
  by (simp add: death_queue_insert_def Let_def setters deref_store head_store)

lemma insert_prev:
  "prev (deref (death_queue_insert q (Conn c)) p) =
     (if p = Head then int c
      else if p = Conn c then prev (head q)
      else prev (deref q p))"
  by (simp add: death_queue_insert_def Let_def setters deref_store head_store)

lemma insert_fields [simp]:
  "flags (deref (death_queue_insert q n) p) = flags (deref q p)"
  "coro (deref (death_queue_insert q n) p) = coro (deref q p)"
  "time_to_die (deref (death_queue_insert q n) p) = time_to_die (deref q p)"
  "time (death_queue_insert q n) = time q"
  "keep_alive_timeout (death_queue_insert q n) = keep_alive_timeout q"
  by (simp_all add: death_queue_insert_def Let_def setters deref_store)

lemma chained_last2:
  assumes "chained q (ys @ [a, b])"
  shows "next (deref q a) = death_queue_node_to_idx b"
    and "prev (deref q b) = death_queue_node_to_idx a"
    and "chained q (ys @ [a])"
  using assms chained_append [of q ys a "[b]"] by simp_all

lemma chained_first2:
  assumes "chained q (a # b # ys)"
  shows "next (deref q a) = death_queue_node_to_idx b"
    and "prev (deref q b) = death_queue_node_to_idx a"
    and "chained q (b # ys)"
  using assms by simp_all

lemma queue_of_insert:
  assumes q: "queue_of q xs" and c: "c \<notin> set xs"
  shows "queue_of (death_queue_insert q (Conn c)) (xs @ [c])"
proof -
  define R where "R = Head # map Conn xs"
  define T where "T = last R"
  define B where "B = butlast R"
  define q' where "q' = death_queue_insert q (Conn c)"
  have R: "B @ [T] = R"
    by (simp add: R_def T_def B_def)
  have dR: "distinct (B @ [T])" and cR: "Conn c \<notin> set (B @ [T])"
    unfolding R using q c by (auto simp add: R_def queue_of_def distinct_map inj_on_def)
  have Tb: "T \<notin> set B" and Tc: "T \<noteq> Conn c" and cB: "Conn c \<notin> set B"
    using dR cR by auto
  have "chained q (R @ [Head])"
    using q by (simp add: queue_of_def R_def)
  then have old: "chained q (B @ [T, Head])"
    unfolding R [symmetric] by simp
  have ph: "prev (head q) = death_queue_node_to_idx T"
    using chained_last2(2) [OF old] by (simp add: deref_Head)
  have pT: "death_queue_idx_to_node (prev (head q)) = T"
    by (simp add: ph)
  have seg: "chained q' (B @ [T]) = chained q (B @ [T])"
  proof (rule chained_frame)
    fix p assume "p \<in> set (butlast (B @ [T]))"
    then have "p \<noteq> T" "p \<noteq> Conn c"
      using Tb cB by auto
    then show "next (deref q' p) = next (deref q p)"
      by (simp add: q'_def insert_next pT)
  next
    fix p assume "p \<in> set (tl (B @ [T]))"
    then have "p \<in> set (map Conn xs)"
      unfolding R by (simp add: R_def)
    then have "p \<noteq> Head" "p \<noteq> Conn c"
      using c by auto
    then show "prev (deref q' p) = prev (deref q p)"
      by (simp add: q'_def insert_prev)
  qed
  have "chained q' (B @ [T, Conn c, Head])"
    using chained_append [of q' B T "[Conn c, Head]"] seg chained_last2(3) [OF old] Tc
    by (simp add: q'_def insert_next insert_prev pT ph)
  then have "chained q' ((B @ [T]) @ [Conn c, Head])"
    by simp
  then have "chained q' (Head # map Conn (xs @ [c]) @ [Head])"
    unfolding R by (simp add: R_def)
  then show ?thesis
    using q c by (simp add: queue_of_def q'_def)
qed



lemma queue_of_remove_split:
  assumes q: "queue_of q (as @ c # bs)"
  shows "queue_of (death_queue_remove q (Conn c)) (as @ bs)"
proof -
  define A where "A = butlast (Head # map Conn as)"
  define P where "P = last (Head # map Conn as)"
  define N where "N = hd (map Conn bs @ [Head])"
  define B where "B = tl (map Conn bs @ [Head])"
  define q' where "q' = death_queue_remove q (Conn c)"
  have AP: "A @ [P] = Head # map Conn as"
    by (simp add: A_def P_def)
  have NB: "N # B = map Conn bs @ [Head]"
    by (simp add: N_def B_def)
  have d: "distinct as" "distinct bs" "c \<notin> set as" "c \<notin> set bs" "set as \<inter> set bs = {}"
    using q by (auto simp add: queue_of_def)
  have dA: "distinct (A @ [P])" and dB: "distinct (N # B)"
    unfolding AP NB using d by (auto simp add: distinct_map inj_on_def)
  have cA: "Conn c \<notin> set (A @ [P])" and cB: "Conn c \<notin> set (N # B)"
    unfolding AP NB using d by auto
  have tlA: "set (tl (A @ [P])) = Conn ` set as"
    unfolding AP by simp
  have blB: "set (butlast (N # B)) = Conn ` set bs"
    unfolding NB by (simp add: butlast_append)
  have PA: "P = Head \<or> P \<in> Conn ` set as"
    by (cases as rule: rev_cases) (simp_all add: P_def)
  have NBs: "N = Head \<or> N \<in> Conn ` set bs"
    by (cases bs) (simp_all add: N_def)
  have "chained q ((A @ [P]) @ Conn c # (N # B))"
    unfolding AP NB using q by (simp add: queue_of_def)
  then have old: "chained q (A @ [P, Conn c]) \<and> chained q (Conn c # N # B)"
    using chained_append [of q "A @ [P]" "Conn c" "N # B"] by simp
  note l2 = chained_last2 [OF old [THEN conjunct1]]
  note f2 = chained_first2 [OF old [THEN conjunct2]]
  have pc: "prev (deref q (Conn c)) = death_queue_node_to_idx P"
    and nP: "next (deref q P) = death_queue_node_to_idx (Conn c)" and cA': "chained q (A @ [P])"
    by (rule l2)+
  have nc: "next (deref q (Conn c)) = death_queue_node_to_idx N"
    and pN: "prev (deref q N) = death_queue_node_to_idx (Conn c)" and cB': "chained q (N # B)"
    by (rule f2)+
  have Pc: "P \<noteq> Conn c" and Nc: "N \<noteq> Conn c"
    using cA cB by auto
  have segA: "chained q' (A @ [P]) = chained q (A @ [P])"
  proof (rule chained_frame)
    fix p assume "p \<in> set (butlast (A @ [P]))"
    then have "p \<noteq> P" "p \<noteq> Conn c"
      using dA cA by auto
    then show "next (deref q' p) = next (deref q p)"
      by (simp add: q'_def remove_next pc)
  next
    fix p assume "p \<in> set (tl (A @ [P]))"
    then have "p \<in> Conn ` set as"
      using tlA by simp
    then have "p \<noteq> N" "p \<noteq> Conn c"
      using NBs d by auto
    then show "prev (deref q' p) = prev (deref q p)"
      by (simp add: q'_def remove_prev nc)
  qed
  have segB: "chained q' (N # B) = chained q (N # B)"
  proof (rule chained_frame)
    fix p assume "p \<in> set (butlast (N # B))"
    then have "p \<in> Conn ` set bs"
      using blB by simp
    then have "p \<noteq> P" "p \<noteq> Conn c"
      using PA d by auto
    then show "next (deref q' p) = next (deref q p)"
      by (simp add: q'_def remove_next pc)
  next
    fix p assume "p \<in> set (tl (N # B))"
    then have "p \<noteq> N" "p \<noteq> Conn c"
      using dB cB by auto
    then show "prev (deref q' p) = prev (deref q p)"
      by (simp add: q'_def remove_prev nc)
  qed
  have "chained q' (A @ P # N # B)"
    using chained_append [of q' A P "N # B"] segA segB cA' cB' Pc Nc
    by (simp add: q'_def remove_next remove_prev pc nc)
  then have "chained q' ((A @ [P]) @ (N # B))"
    by simp
  then have "chained q' (Head # map Conn (as @ bs) @ [Head])"
    unfolding AP NB by simp
  then show ?thesis
    using d by (simp add: queue_of_def q'_def)
qed


lemma queue_of_remove:
  assumes q: "queue_of q xs" and c: "c \<in> set xs"
  shows "queue_of (death_queue_remove q (Conn c)) (remove1 c xs)"
proof -
  obtain as bs where xs: "xs = as @ c # bs" and "c \<notin> set as"
    using c by (meson split_list_first)
  then have "remove1 c xs = as @ bs"
    by (simp add: remove1_append)
  then show ?thesis
    using queue_of_remove_split [of q as c bs] q xs by simp
qed

lemma queue_of_distinct: "queue_of q xs \<Longrightarrow> distinct xs"
  by (simp add: queue_of_def)

lemma queue_of_head_next:
  "queue_of q xs \<Longrightarrow> next (head q) = (case xs of [] \<Rightarrow> - 1 | x # _ \<Rightarrow> int x)"
  by (cases xs) (simp_all add: queue_of_def deref_Head)

lemma queue_of_head_prev:
  "queue_of q xs \<Longrightarrow> prev (head q) = (if xs = [] then - 1 else int (last xs))"
proof -
  assume q: "queue_of q xs"
  have e: "Head # map Conn xs @ [Head] = butlast (Head # map Conn xs) @ [last (Head # map Conn xs), Head]"
    by (metis append_butlast_last_id append_Cons append_Nil append.assoc list.distinct(1))
  have "chained q (butlast (Head # map Conn xs) @ [last (Head # map Conn xs), Head])"
    using q unfolding queue_of_def e [symmetric] by simp
  from chained_last2(2) [OF this] show ?thesis
    by (simp add: deref_Head last_map)
qed


lemma setter_links [simp]:
  "next (deref (set_flags p v q) r) = next (deref q r)"
  "prev (deref (set_flags p v q) r) = prev (deref q r)"
  "next (deref (set_coro p c q) r) = next (deref q r)"
  "prev (deref (set_coro p c q) r) = prev (deref q r)"
  "next (deref (set_time_to_die p t q) r) = next (deref q r)"
  "prev (deref (set_time_to_die p t q) r) = prev (deref q r)"
  by (simp_all add: setters deref_store)

lemma setter_fields:
  "flags (deref (set_flags p v q) r) = (if r = p then v else flags (deref q r))"
  "coro (deref (set_flags p v q) r) = coro (deref q r)"
  "time_to_die (deref (set_flags p v q) r) = time_to_die (deref q r)"
  "flags (deref (set_coro p c q) r) = flags (deref q r)"
  "coro (deref (set_coro p c q) r) = (if r = p then c else coro (deref q r))"
  "time_to_die (deref (set_coro p c q) r) = time_to_die (deref q r)"
  "flags (deref (set_time_to_die p t q) r) = flags (deref q r)"
  "coro (deref (set_time_to_die p t q) r) = coro (deref q r)"
  "time_to_die (deref (set_time_to_die p t q) r) = (if r = p then t else time_to_die (deref q r))"
  by (simp_all add: setters deref_store)

lemma setter_clock [simp]:
  "time (set_flags p v q) = time q"
  "keep_alive_timeout (set_flags p v q) = keep_alive_timeout q"
  "time (set_coro p c q) = time q"
  "keep_alive_timeout (set_coro p c q) = keep_alive_timeout q"
  "time (set_time_to_die p t q) = time q"
  "keep_alive_timeout (set_time_to_die p t q) = keep_alive_timeout q"
  "time (set_next p i q) = time q"
  "keep_alive_timeout (set_next p i q) = keep_alive_timeout q"
  "time (set_prev p i q) = time q"
  "keep_alive_timeout (set_prev p i q) = keep_alive_timeout q"
  by (simp_all add: setters)

lemma queue_of_same_links:
  assumes "\<And>p. next (deref q' p) = next (deref q p)"
    and "\<And>p. prev (deref q' p) = prev (deref q p)"
  shows "queue_of q' xs = queue_of q xs"
  unfolding queue_of_def using chained_frame [of _ q' q] assms by simp

lemma queue_of_setters [simp]:
  "queue_of (set_flags p v q) xs = queue_of q xs"
  "queue_of (set_coro p c q) xs = queue_of q xs"
  "queue_of (set_time_to_die p t q) xs = queue_of q xs"
  by (rule queue_of_same_links; simp)+

lemma queue_of_member_links:
  assumes q: "queue_of q (as @ c # bs)"
  shows "prev (deref q (Conn c)) = death_queue_node_to_idx (last (Head # map Conn as))"
    and "next (deref q (Conn c)) = death_queue_node_to_idx (hd (map Conn bs @ [Head]))"
    and "next (deref q (last (Head # map Conn as))) = int c"
    and "prev (deref q (hd (map Conn bs @ [Head]))) = int c"
proof -
  define A where "A = butlast (Head # map Conn as)"
  define P where "P = last (Head # map Conn as)"
  define N where "N = hd (map Conn bs @ [Head])"
  define B where "B = tl (map Conn bs @ [Head])"
  have AP: "A @ [P] = Head # map Conn as"
    by (simp add: A_def P_def)
  have NB: "N # B = map Conn bs @ [Head]"
    by (simp add: N_def B_def)
  have "chained q ((A @ [P]) @ Conn c # (N # B))"
    unfolding AP NB using q by (simp add: queue_of_def)
  then have old: "chained q (A @ [P, Conn c]) \<and> chained q (Conn c # N # B)"
    using chained_append [of q "A @ [P]" "Conn c" "N # B"] by simp
  show "prev (deref q (Conn c)) = death_queue_node_to_idx (last (Head # map Conn as))"
    unfolding P_def [symmetric] by (rule chained_last2(2) [OF old [THEN conjunct1]])
  show "next (deref q (Conn c)) = death_queue_node_to_idx (hd (map Conn bs @ [Head]))"
    unfolding N_def [symmetric] by (rule chained_first2(1) [OF old [THEN conjunct2]])
  show "next (deref q (last (Head # map Conn as))) = int c"
    unfolding P_def [symmetric] using chained_last2(1) [OF old [THEN conjunct1]] by simp
  show "prev (deref q (hd (map Conn bs @ [Head]))) = int c"
    unfolding N_def [symmetric] using chained_first2(2) [OF old [THEN conjunct2]] by simp
qed

lemma last_ring: "last (Head # map Conn as) = Head \<or> last (Head # map Conn as) \<in> Conn ` set as"
  by (cases as rule: rev_cases) simp_all

lemma hd_ring: "hd (map Conn bs @ [Head]) = Head \<or> hd (map Conn bs @ [Head]) \<in> Conn ` set bs"
  by (cases bs) simp_all

lemma queue_of_tail_node:
  assumes "queue_of q xs"
  shows "death_queue_idx_to_node (prev (head q)) = last (Head # map Conn xs)"
  using queue_of_head_prev [OF assms]
  by (cases xs rule: rev_cases) (simp_all add: death_queue_idx_to_node_def)

lemma queue_of_tail_next:
  assumes "queue_of q xs"
  shows "next (deref q (last (Head # map Conn xs))) = - 1"
proof (cases xs rule: rev_cases)
  case Nil
  then show ?thesis using queue_of_head_next [OF assms] by (simp add: deref_Head)
next
  case (snoc ys y)
  then show ?thesis using queue_of_member_links(2) [of q ys y "[]"] assms by simp
qed

lemma remove_outside:
  assumes q: "queue_of q xs" and c: "c \<in> set xs" and i: "i \<notin> set xs"
  shows "deref (death_queue_remove q (Conn c)) (Conn i) = deref q (Conn i)"
proof -
  obtain as bs where xs: "xs = as @ c # bs"
    using c by (meson split_list)
  note l = queue_of_member_links [OF q [unfolded xs]]
  have "Conn i \<noteq> last (Head # map Conn as)" "Conn i \<noteq> hd (map Conn bs @ [Head])" "i \<noteq> c"
    using last_ring [of as] hd_ring [of bs] i xs by auto
  then show ?thesis
    by (intro lwan_connection.equality) (simp_all add: remove_next remove_prev l)
qed

lemma insert_outside:
  assumes q: "queue_of q xs" and i: "i \<notin> set xs" "i \<noteq> c"
  shows "deref (death_queue_insert q (Conn c)) (Conn i) = deref q (Conn i)"
proof -
  have "Conn i \<noteq> last (Head # map Conn xs)"
    using last_ring [of xs] i by auto
  then show ?thesis
    using i by (intro lwan_connection.equality)
      (simp_all add: insert_next insert_prev queue_of_tail_node [OF q])
qed

lemma conns_deref: "conns q i = deref q (Conn i)"
  by (simp add: deref_def)

lemma set_time_to_die_twice:
  "set_time_to_die p v (set_time_to_die p w q) = set_time_to_die p v q"
  by (cases p) (simp_all add: set_time_to_die_def store_def deref_def)

lemma move_to_last_unfold:
  "death_queue_move_to_last q (Conn c) =
     death_queue_insert
       (death_queue_remove (set_time_to_die (Conn c) (move_deadline q c) q) (Conn c)) (Conn c)"
  by (simp add: death_queue_move_to_last_def Let_def move_deadline_def setter_fields
      set_time_to_die_twice conns_deref)

lemma move_to_last_queue:
  assumes q: "queue_of q xs" and c: "c \<in> set xs"
  shows "queue_of (death_queue_move_to_last q (Conn c)) (remove1 c xs @ [c])"
proof -
  have "queue_of (set_time_to_die (Conn c) (move_deadline q c) q) xs"
    using q by simp
  then have "queue_of (death_queue_remove (set_time_to_die (Conn c) (move_deadline q c) q) (Conn c))
      (remove1 c xs)"
    using c by (rule queue_of_remove)
  moreover have "c \<notin> set (remove1 c xs)"
    using queue_of_distinct [OF q] by simp
  ultimately show ?thesis
    unfolding move_to_last_unfold by (rule queue_of_insert)
qed

lemma move_to_last_fields:
  "time_to_die (deref (death_queue_move_to_last q (Conn c)) p) =
     (if p = Conn c then move_deadline q c else time_to_die (deref q p))"
  "flags (deref (death_queue_move_to_last q (Conn c)) p) = flags (deref q p)"
  "coro (deref (death_queue_move_to_last q (Conn c)) p) = coro (deref q p)"
  "time (death_queue_move_to_last q (Conn c)) = time q"
  "keep_alive_timeout (death_queue_move_to_last q (Conn c)) = keep_alive_timeout q"
  by (simp_all add: move_to_last_unfold setter_fields)

lemma move_to_last_outside:
  assumes q: "queue_of q xs" and c: "c \<in> set xs" and i: "i \<notin> set xs"
  shows "conns (death_queue_move_to_last q (Conn c)) i = conns q i"
proof -
  let ?q1 = "set_time_to_die (Conn c) (move_deadline q c) q"
  have q1: "queue_of ?q1 xs"
    using q by simp
  have ic: "i \<noteq> c"
    using c i by auto
  have "i \<notin> set (remove1 c xs)"
    using i by (meson notin_set_remove1)
  then have "deref (death_queue_insert (death_queue_remove ?q1 (Conn c)) (Conn c)) (Conn i)
      = deref (death_queue_remove ?q1 (Conn c)) (Conn i)"
    using ic by (rule insert_outside [OF queue_of_remove [OF q1 c]])
  also have "\<dots> = deref ?q1 (Conn i)"
    using q1 c i by (rule remove_outside)
  also have "\<dots> = deref q (Conn i)"
    using ic by (simp add: setters deref_store)
  finally show ?thesis
    by (simp add: move_to_last_unfold conns_deref)
qed


lemma set_time_to_die_same: "set_time_to_die p (time_to_die (deref q p)) q = q"
  by (simp add: set_time_to_die_def)

lemma move_to_last_tail_fixed:
  assumes q: "queue_of q (ys @ [c])"
    and t: "time_to_die (deref q (Conn c)) = move_deadline q c"
  shows "death_queue_move_to_last q (Conn c) = q"
proof -
  define P where "P = last (Head # map Conn ys)"
  note l = queue_of_member_links [OF q, folded P_def, simplified]
  have hp: "prev (deref q Head) = int c"
    using queue_of_head_prev [OF q] by (simp add: deref_Head)
  have Pc: "P \<noteq> Conn c"
    using last_ring [of ys] queue_of_distinct [OF q] by (auto simp add: P_def)
  have "death_queue_insert (death_queue_remove q (Conn c)) (Conn c) = q"
  proof (rule death_queue_ext)
    fix p
    have hr: "prev (head (death_queue_remove q (Conn c))) = death_queue_node_to_idx P"
      using remove_prev [of q "Conn c" Head] l by (simp add: deref_Head)
    show "deref (death_queue_insert (death_queue_remove q (Conn c)) (Conn c)) p = deref q p"
      using l hp Pc
      by (intro lwan_connection.equality)
        (auto simp add: insert_next insert_prev hr remove_next remove_prev)
  qed simp_all
  then show ?thesis
    unfolding move_to_last_unfold t [symmetric] set_time_to_die_same .
qed

lemma move_deadline_move [simp]:
  "move_deadline (death_queue_move_to_last q (Conn c)) c = move_deadline q c"
  by (simp add: move_deadline_def move_to_last_fields conns_deref)

lemma move_to_last_twice:
  assumes q: "queue_of q xs" and c: "c \<in> set xs"
  shows "death_queue_move_to_last (death_queue_move_to_last q (Conn c)) (Conn c)
       = death_queue_move_to_last q (Conn c)"
  by (rule move_to_last_tail_fixed [OF move_to_last_queue [OF q c]])
    (simp add: move_to_last_fields)

lemma insert_then_remove:
  assumes q: "queue_of q xs" and c: "c \<notin> set xs"
  shows "death_queue_remove (death_queue_insert q (Conn c)) (Conn c)
       = set_next (Conn c) (- 1) (set_prev (Conn c) (- 1) q)"
proof (rule death_queue_ext)
  fix p
  define T where "T = last (Head # map Conn xs)"
  have T: "death_queue_idx_to_node (prev (head q)) = T"
    unfolding T_def by (rule queue_of_tail_node [OF q])
  have nT: "next (deref q T) = - 1"
    unfolding T_def by (rule queue_of_tail_next [OF q])
  have Tc: "T \<noteq> Conn c"
    using last_ring [of xs] c by (auto simp add: T_def)
  have pc: "death_queue_idx_to_node (prev (deref (death_queue_insert q (Conn c)) (Conn c))) = T"
    by (simp add: insert_prev T)
  have nc: "next (deref (death_queue_insert q (Conn c)) (Conn c)) = - 1"
    using Tc by (simp add: insert_next T)
  have ph: "prev (deref q Head) = death_queue_node_to_idx T"
    using T by (metis deref_Head idx_node_inverse queue_of_head_prev q T_def last_ring
        death_queue_idx_to_node_def node_to_idx_Head node_to_idx_Conn)
  show "deref (death_queue_remove (death_queue_insert q (Conn c)) (Conn c)) p
      = deref (set_next (Conn c) (- 1) (set_prev (Conn c) (- 1) q)) p"
    using Tc nT ph
    by (intro lwan_connection.equality)
      (auto simp add: remove_next remove_prev pc nc insert_next insert_prev T
        setters deref_store deref_Head)
qed simp_all

section \<open>Destruction and the timeout loop\<close>

lemma clear_alive_idem:
  fixes f :: conn_flags
  assumes "f AND CONN_IS_ALIVE = 0"
  shows "f AND NOT CONN_IS_ALIVE = f"
proof (rule bit_eqI)
  fix n
  have "\<not> bit f 1"
    using assms by (simp add: flag_tests)
  then show "bit (f AND NOT CONN_IS_ALIVE) n = bit f n"
    by (auto simp add: flag_bits)
qed

lemma destroy_coro_fields:
  "flags (conns (dqueue (destroy_coro s c)) i) =
     (if i = c then flags (conns (dqueue s) i) AND NOT CONN_IS_ALIVE else flags (conns (dqueue s) i))"
  "coro (conns (dqueue (destroy_coro s c)) i) =
     (if i = c then None else coro (conns (dqueue s) i))"
  "time_to_die (conns (dqueue (destroy_coro s c)) i) = time_to_die (conns (dqueue s) i)"
  "time (dqueue (destroy_coro s c)) = time (dqueue s)"
  "keep_alive_timeout (dqueue (destroy_coro s c)) = keep_alive_timeout (dqueue s)"
  by (auto simp add: destroy_coro_def Let_def close_fd_def conns_deref setter_fields
      clear_alive_idem)

lemma destroy_coro_calls:
  "calls (destroy_coro s c) = calls s @ (if alive (dqueue s) c then [Close c] else [])"
  "interest (destroy_coro s c) =
     (if alive (dqueue s) c then (interest s)(c := None) else interest s)"
  by (auto simp add: destroy_coro_def Let_def close_fd_def conns_deref setter_fields alive_def)

lemma destroy_coro_queue:
  assumes "queue_of (dqueue s) xs" and "c \<in> set xs"
  shows "queue_of (dqueue (destroy_coro s c)) (remove1 c xs)"
  using queue_of_remove [OF assms]
  by (simp add: destroy_coro_def Let_def close_fd_def)

lemma expired_destroy [simp]: "expired (dqueue (destroy_coro s c)) = expired (dqueue s)"
  by (rule ext) (simp add: expired_def destroy_coro_fields)

lemma alive_destroy: "alive (dqueue (destroy_coro s c)) i = (i \<noteq> c \<and> alive (dqueue s) i)"
  by (auto simp add: alive_def destroy_coro_fields flag_tests flag_bits)

lemma kill_waiting_loop_empty_time:
  assumes "kill_waiting_loop s = Some r"
  shows "death_queue_empty (dqueue r) \<longrightarrow> time (dqueue r) = 0"
proof (rule kill_waiting_loop.raw_induct
    [where P = "\<lambda>s r. death_queue_empty (dqueue r) \<longrightarrow> time (dqueue r) = 0", OF _ assms])
  fix loop :: "thread_state \<Rightarrow> thread_state option" and s r
  assume IH: "\<And>s r. loop s = Some r \<Longrightarrow> death_queue_empty (dqueue r) \<longrightarrow> time (dqueue r) = 0"
    and body: "(if death_queue_empty (dqueue s) then Some (s\<lparr>dqueue := (dqueue s)\<lparr>time := 0\<rparr>\<rparr>)
      else
        (case death_queue_idx_to_node (next (head (dqueue s))) of
           Head \<Rightarrow> Some s
         | Conn fd \<Rightarrow>
             if time_to_die (deref (dqueue s) (Conn fd)) > time (dqueue s) then Some s
             else loop (destroy_coro s fd))) = Some r"
  show "death_queue_empty (dqueue r) \<longrightarrow> time (dqueue r) = 0"
    using IH body by (auto split: if_splits node.splits)
qed

lemma kill_waiting_loop_queue:
  assumes "queue_of (dqueue s) xs"
  shows "\<exists>s'. kill_waiting_loop s = Some s'
      \<and> queue_of (dqueue s') (dropWhile (expired (dqueue s)) xs)
      \<and> time (dqueue s') =
          (if dropWhile (expired (dqueue s)) xs = [] then 0 else time (dqueue s))
      \<and> keep_alive_timeout (dqueue s') = keep_alive_timeout (dqueue s)
      \<and> (\<forall>i. time_to_die (conns (dqueue s') i) = time_to_die (conns (dqueue s) i))
      \<and> (\<forall>i. flags (conns (dqueue s') i) =
            (if i \<in> set (takeWhile (expired (dqueue s)) xs)
             then flags (conns (dqueue s) i) AND NOT CONN_IS_ALIVE
             else flags (conns (dqueue s) i)))
      \<and> (\<forall>i. coro (conns (dqueue s') i) =
            (if i \<in> set (takeWhile (expired (dqueue s)) xs) then None
             else coro (conns (dqueue s) i)))
      \<and> calls s' = calls s @
          map Close (filter (alive (dqueue s)) (takeWhile (expired (dqueue s)) xs))"
  using assms
proof (induction xs arbitrary: s)
  case Nil
  then have "death_queue_empty (dqueue s)"
    using queue_of_head_next [of "dqueue s" "[]"] by (simp add: death_queue_empty_def)
  then show ?case
    using Nil by (subst kill_waiting_loop.simps) (simp add: queue_of_def deref_def)
next
  case (Cons x xs)
  have hn: "next (head (dqueue s)) = int x"
    using queue_of_head_next [OF Cons.prems] by simp
  then have ne: "\<not> death_queue_empty (dqueue s)"
    and nd: "death_queue_idx_to_node (next (head (dqueue s))) = Conn x"
    by (simp_all add: death_queue_empty_def death_queue_idx_to_node_def)
  show ?case
  proof (cases "expired (dqueue s) x")
    case False
    then have lt: "time (dqueue s) < time_to_die (deref (dqueue s) (Conn x))"
      by (simp add: expired_def deref_Conn not_le)
    show ?thesis
      using ne nd lt False Cons.prems
      by (subst kill_waiting_loop.simps) simp
  next
    case True
    define s1 where "s1 = destroy_coro s x"
    have x: "x \<notin> set xs"
      using queue_of_distinct [OF Cons.prems] by simp
    have q1: "queue_of (dqueue s1) xs"
      using destroy_coro_queue [OF Cons.prems, of x] by (simp add: s1_def)
    have "\<not> time (dqueue s) < time_to_die (deref (dqueue s) (Conn x))"
      using True by (simp add: expired_def deref_Conn not_le)
    then have step: "kill_waiting_loop s = kill_waiting_loop s1"
      using ne nd
      by (subst kill_waiting_loop.simps) (simp add: s1_def)
    have al: "filter (alive (dqueue s1)) (takeWhile (expired (dqueue s)) xs) =
        filter (alive (dqueue s)) (takeWhile (expired (dqueue s)) xs)"
      using x by (intro filter_cong) (auto simp add: s1_def alive_destroy dest: set_takeWhileD)
    from Cons.IH [OF q1] obtain s' where
      r: "kill_waiting_loop s1 = Some s'"
      and rest: "queue_of (dqueue s') (dropWhile (expired (dqueue s)) xs)"
        "time (dqueue s') = (if dropWhile (expired (dqueue s)) xs = [] then 0 else time (dqueue s))"
        "keep_alive_timeout (dqueue s') = keep_alive_timeout (dqueue s)"
        "\<forall>i. time_to_die (conns (dqueue s') i) = time_to_die (conns (dqueue s) i)"
        "\<forall>i. flags (conns (dqueue s') i) =
            (if i \<in> set (takeWhile (expired (dqueue s)) xs)
             then flags (conns (dqueue s1) i) AND NOT CONN_IS_ALIVE
             else flags (conns (dqueue s1) i))"
        "\<forall>i. coro (conns (dqueue s') i) =
            (if i \<in> set (takeWhile (expired (dqueue s)) xs) then None
             else coro (conns (dqueue s1) i))"
        "calls s' = calls s1 @
          map Close (filter (alive (dqueue s1)) (takeWhile (expired (dqueue s)) xs))"
      by (auto simp add: s1_def destroy_coro_fields)
    have fl: "\<forall>i. flags (conns (dqueue s') i) =
            (if i \<in> set (takeWhile (expired (dqueue s)) (x # xs))
             then flags (conns (dqueue s) i) AND NOT CONN_IS_ALIVE
             else flags (conns (dqueue s) i))"
      using rest(5) True x by (auto simp add: s1_def destroy_coro_fields dest: set_takeWhileD)
    have co: "\<forall>i. coro (conns (dqueue s') i) =
            (if i \<in> set (takeWhile (expired (dqueue s)) (x # xs)) then None
             else coro (conns (dqueue s) i))"
      using rest(6) True x by (auto simp add: s1_def destroy_coro_fields dest: set_takeWhileD)
    have ca: "calls s' = calls s @
          map Close (filter (alive (dqueue s)) (takeWhile (expired (dqueue s)) (x # xs)))"
      using rest(7) True unfolding al by (simp add: s1_def destroy_coro_calls)
    show ?thesis
      using step r rest(1-4) fl co ca True by simp
  qed
qed

lemma queue_of_clock [simp]: "queue_of (q\<lparr>time := t\<rparr>) xs = queue_of q xs"
  by (rule queue_of_same_links) (simp_all add: deref_def split: node.splits)

lemma expired_tick:
  "expired (dqueue (s\<lparr>dqueue := (dqueue s)\<lparr>time := time (dqueue s) + 1\<rparr>\<rparr>)) = overdue s"
  by (rule ext) (simp add: expired_def overdue_def)

section \<open>The invariant of a run\<close>

lemma unat_clock_plus:
  fixes t :: "32 word" and k :: "16 word"
  assumes "unat t + unat k < 2 ^ 32"
  shows "unat (t + ucast k) = unat t + unat k"
proof -
  have "unat k < 2 ^ 16"
    using unsigned_less [of k] by simp
  then have "unat k < (2 :: nat) ^ 32"
    by (rule less_trans) simp
  then have "unat (ucast k :: 32 word) = unat k"
    by (simp add: unsigned_ucast_eq take_bit_nat_eq_self)
  then show ?thesis
    using assms unat_add_lem [of t "ucast k"] by simp
qed

lemma unat_clock_tick:
  fixes t :: "32 word"
  assumes "unat t + 1 < 2 ^ 32"
  shows "unat (t + 1) = unat t + 1"
  using assms unat_add_lem [of t 1] by simp

lemma queue_inv_start:
  assumes "\<forall>i. flags (table i) AND CONN_IS_ALIVE = 0"
  shows "queue_inv (death_queue_init q table kat) []"
proof -
  have "unat kat < 2 ^ 16"
    using unsigned_less [of kat] by simp
  then have "unat kat < (2 :: nat) ^ 32"
    by (rule less_trans) simp
  then show ?thesis
    using assms
    by (simp add: queue_inv_def queue_of_def death_queue_init_def Let_def setters deref_store
        alive_def conns_store)
qed

lemma queue_of_store_outside:
  assumes "i \<notin> set xs"
  shows "queue_of (store (Conn i) v q) xs = queue_of q xs"
  unfolding queue_of_def
proof -
  have "chained (store (Conn i) v q) (Head # map Conn xs @ [Head]) =
      chained q (Head # map Conn xs @ [Head])"
  proof (rule chained_frame)
    fix p assume "p \<in> set (butlast (Head # map Conn xs @ [Head]))"
    then have "p \<noteq> Conn i"
      using assms by (auto simp add: butlast_append)
    then show "next (deref (store (Conn i) v q) p) = next (deref q p)"
      by (simp add: deref_store)
  next
    fix p assume "p \<in> set (tl (Head # map Conn xs @ [Head]))"
    then have "p \<noteq> Conn i"
      using assms by auto
    then show "prev (deref (store (Conn i) v q) p) = prev (deref q p)"
      by (simp add: deref_store)
  qed
  then show "(distinct xs \<and> chained (store (Conn i) v q) (Head # map Conn xs @ [Head])) =
      (distinct xs \<and> chained q (Head # map Conn xs @ [Head]))"
    by simp
qed

lemma queue_inv_handoff:
  assumes inv: "queue_inv (dqueue s) xs" and na: "\<not> alive (dqueue s) fd"
  shows "queue_inv (dqueue (lwan_thread_add_client s fd)) xs"
proof -
  have fd: "fd \<notin> set xs"
    using inv na by (simp add: queue_inv_def)
  have d: "map (deadline (store (Conn fd) zero_connection (dqueue s))) xs =
      map (deadline (dqueue s)) xs"
    using fd by (intro map_cong) (auto simp add: deadline_def conns_store)
  have a: "alive (store (Conn fd) zero_connection (dqueue s)) = alive (dqueue s)"
    using na by (intro ext) (auto simp add: alive_def conns_store zero_connection_def)
  show ?thesis
    using inv fd unfolding queue_inv_def lwan_thread_add_client_def
    by (simp add: queue_of_store_outside d a) (auto simp add: deadline_def conns_store)
qed

lemma sorted_snoc_bound:
  fixes f :: "nat \<Rightarrow> 32 word"
  assumes "sorted (map f xs)" and "\<forall>i\<in>set xs. unat (f i) \<le> unat b"
  shows "sorted (map f xs @ [b])"
  using assms by (auto simp add: sorted_append word_le_nat_alt)

lemma spawn_coro_dqueue:
  assumes "spawn_coro s fd (Some c) = Inr s'"
  shows "\<not> alive (dqueue s) fd"
    and "dqueue s' =
      death_queue_insert
        (set_time_to_die (Conn fd) (time (dqueue s) + ucast (keep_alive_timeout (dqueue s)))
          (set_flags (Conn fd) (CONN_IS_ALIVE OR CONN_SHOULD_RESUME_CORO)
            (set_coro (Conn fd) (Some c) (dqueue s))))
        (Conn fd)"
  using assms
  by (auto simp add: spawn_coro_def Let_def alive_def conns_deref setter_fields
      split: if_splits)

lemma queue_inv_spawn:
  assumes inv: "queue_inv (dqueue s) xs" and sp: "spawn_coro s fd (Some c) = Inr s'"
  shows "queue_inv (dqueue s') (xs @ [fd])"
proof -
  note e = spawn_coro_dqueue [OF sp]
  define d where "d = time (dqueue s) + ucast (keep_alive_timeout (dqueue s))"
  have fd: "fd \<notin> set xs"
    using inv e(1) by (simp add: queue_inv_def)
  have ov: "unat (time (dqueue s)) + unat (keep_alive_timeout (dqueue s)) < 2 ^ 32"
    using inv by (simp add: queue_inv_def)
  have ud: "unat d = unat (time (dqueue s)) + unat (keep_alive_timeout (dqueue s))"
    unfolding d_def by (rule unat_clock_plus [OF ov])
  have q: "queue_of (dqueue s') (xs @ [fd])"
    unfolding e(2) using inv fd by (intro queue_of_insert) (simp add: queue_inv_def)
  have dl: "deadline (dqueue s') = (deadline (dqueue s))(fd := d)"
    unfolding e(2) d_def by (rule ext) (simp add: deadline_def conns_deref setter_fields)
  have al: "alive (dqueue s') = (alive (dqueue s))(fd := True)"
    unfolding e(2)
    by (rule ext) (simp add: alive_def conns_deref setter_fields flag_tests flag_bits flag_consts)
  have m: "map ((deadline (dqueue s))(fd := d)) xs = map (deadline (dqueue s)) xs"
    using fd by (intro map_cong) auto
  have so: "sorted (map (deadline (dqueue s')) (xs @ [fd]))"
    using sorted_snoc_bound [of "deadline (dqueue s)" xs d] inv
    by (simp add: dl m queue_inv_def ud)
  have tk: "time (dqueue s') = time (dqueue s)"
    "keep_alive_timeout (dqueue s') = keep_alive_timeout (dqueue s)"
    unfolding e(2) by simp_all
  show ?thesis
    unfolding queue_inv_def using q so inv fd
    by (auto simp add: al tk dl ud queue_inv_def)
qed

lemma set_flags_twice: "set_flags p v (set_flags p w q) = set_flags p v q"
  by (cases p) (simp_all add: set_flags_def store_def deref_def)

lemma set_flags_same: "set_flags p (flags (deref q p)) q = q"
  by (simp add: set_flags_def)

lemma resume_dqueue:
  assumes r: "resume_coro_if_needed s fd r ok = Inr s1"
    and y: "CONN_CORO_MAY_RESUME \<le> yield_result r"
    and a: "alive (dqueue s) fd" and l: "flags_left r AND CONN_IS_ALIVE \<noteq> 0"
  shows "\<exists>f. dqueue s1 = set_flags (Conn fd) f (dqueue s) \<and> f AND CONN_IS_ALIVE \<noteq> 0"
proof (cases "flags (deref (dqueue s) (Conn fd)) AND CONN_SHOULD_RESUME_CORO = 0")
  case True
  then have "s1 = s"
    using r by (simp add: resume_coro_if_needed_def Let_def split: if_splits)
  then have "dqueue s1 = set_flags (Conn fd) (flags (deref (dqueue s) (Conn fd))) (dqueue s)"
    by (simp add: set_flags_same)
  then show ?thesis
    using a by (auto simp add: alive_def deref_Conn)
next
  case False
  then show ?thesis
    using r y l
    by (auto simp add: resume_coro_if_needed_def Let_def reprogram_def epoll_ctl_def
        lwan_status_perror_def set_flags_twice setter_fields flag_tests flag_bits
        split: if_splits)
qed

lemma sorted_map_remove1_word:
  fixes f :: "nat \<Rightarrow> 32 word"
  shows "sorted (map f xs) \<Longrightarrow> sorted (map f (remove1 x xs))"
  by (induction xs) (auto dest: notin_set_remove1)

lemma queue_inv_move:
  assumes inv: "queue_inv q xs" and a: "f AND CONN_IS_ALIVE \<noteq> 0" and al: "alive q fd"
    and k: "f AND (CONN_KEEP_ALIVE OR CONN_SHOULD_RESUME_CORO) \<noteq> 0"
  shows "queue_inv (death_queue_move_to_last (set_flags (Conn fd) f q) (Conn fd))
      (remove1 fd xs @ [fd])"
proof -
  define q1 where "q1 = set_flags (Conn fd) f q"
  define q2 where "q2 = death_queue_move_to_last q1 (Conn fd)"
  define d where "d = time q + ucast (keep_alive_timeout q)"
  have fd: "fd \<in> set xs" and dis: "distinct xs"
    using inv al by (simp_all add: queue_inv_def queue_of_def)
  have ov: "unat (time q) + unat (keep_alive_timeout q) < 2 ^ 32"
    using inv by (simp add: queue_inv_def)
  have ud: "unat d = unat (time q) + unat (keep_alive_timeout q)"
    unfolding d_def by (rule unat_clock_plus [OF ov])
  have q1: "queue_of q1 xs"
    using inv by (simp add: q1_def queue_inv_def)
  have q2: "queue_of q2 (remove1 fd xs @ [fd])"
    unfolding q2_def using q1 fd by (rule move_to_last_queue)
  have md: "move_deadline q1 fd = d"
    using k by (simp add: move_deadline_def q1_def d_def conns_deref setter_fields)
  have dl: "deadline q2 = (deadline q)(fd := d)"
    unfolding q2_def
    by (rule ext) (simp add: deadline_def conns_deref move_to_last_fields md, simp add: q1_def setter_fields)
  have a2: "alive q2 = alive q"
    unfolding q2_def using a al
    by (intro ext) (auto simp add: alive_def conns_deref move_to_last_fields q1_def setter_fields)
  have tk: "time q2 = time q" "keep_alive_timeout q2 = keep_alive_timeout q"
    unfolding q2_def by (simp_all add: move_to_last_fields q1_def)
  have m: "map ((deadline q)(fd := d)) (remove1 fd xs) = map (deadline q) (remove1 fd xs)"
    using dis by (intro map_cong) auto
  have "sorted (map (deadline q) (remove1 fd xs))"
    using inv by (intro sorted_map_remove1_word) (simp add: queue_inv_def)
  moreover have "\<forall>i\<in>set (remove1 fd xs). unat (deadline q i) \<le> unat d"
    using inv by (auto simp add: queue_inv_def ud dest: notin_set_remove1)
  ultimately have so: "sorted (map (deadline q2) (remove1 fd xs @ [fd]))"
    using sorted_snoc_bound [of "deadline q" "remove1 fd xs" d] by (simp add: dl m)
  have st: "set (remove1 fd xs @ [fd]) = set xs"
    using fd dis by auto
  have "\<forall>i\<in>set xs. unat (deadline q2 i) \<le> unat (time q) + unat (keep_alive_timeout q)"
    using inv by (auto simp add: dl ud queue_inv_def)
  then show ?thesis
    unfolding queue_inv_def q2_def [symmetric] q1_def [symmetric] st
    using q2 so inv ov by (simp add: a2 tk queue_inv_def)
qed

lemma queue_inv_hangup:
  assumes inv: "queue_inv (dqueue s) xs" and al: "alive (dqueue s) fd"
  shows "queue_inv (dqueue (destroy_coro s fd)) (remove1 fd xs)"
proof -
  have fd: "fd \<in> set xs" and dis: "distinct xs"
    using inv al by (simp_all add: queue_inv_def queue_of_def)
  have q: "queue_of (dqueue (destroy_coro s fd)) (remove1 fd xs)"
    using inv fd by (intro destroy_coro_queue) (simp add: queue_inv_def)
  have dl: "deadline (dqueue (destroy_coro s fd)) = deadline (dqueue s)"
    by (rule ext) (simp add: deadline_def destroy_coro_fields)
  have so: "sorted (map (deadline (dqueue s)) (remove1 fd xs))"
    using inv by (intro sorted_map_remove1_word) (simp add: queue_inv_def)
  show ?thesis
    unfolding queue_inv_def using q so inv dis
    by (auto simp add: dl alive_destroy destroy_coro_fields queue_inv_def
        dest: notin_set_remove1)
qed

lemma set_dropWhile_distinct:
  assumes "distinct xs"
  shows "(i \<in> set (dropWhile P xs)) = (i \<in> set xs \<and> i \<notin> set (takeWhile P xs))"
proof -
  have "set (takeWhile P xs) \<inter> set (dropWhile P xs) = {}"
    using assms distinct_append [of "takeWhile P xs" "dropWhile P xs"] by simp
  moreover have "set xs = set (takeWhile P xs) \<union> set (dropWhile P xs)"
    by (metis set_append takeWhile_dropWhile_id)
  ultimately show ?thesis
    by auto
qed

lemma queue_inv_timeout:
  assumes inv: "queue_inv (dqueue s) xs"
    and g: "unat (time (dqueue s)) + 1 + unat (keep_alive_timeout (dqueue s)) < 2 ^ 32"
    and k: "death_queue_kill_waiting s = Some s'"
  shows "queue_inv (dqueue s') (dropWhile (overdue s) xs)"
proof -
  let ?s0 = "s\<lparr>dqueue := (dqueue s)\<lparr>time := time (dqueue s) + 1\<rparr>\<rparr>"
  have dis: "distinct xs"
    using inv by (simp add: queue_inv_def queue_of_def)
  have "queue_of (dqueue ?s0) xs"
    using inv by (simp add: queue_inv_def)
  from kill_waiting_loop_queue [OF this, unfolded expired_tick]
  obtain r where r: "kill_waiting_loop ?s0 = Some r"
    and f1: "queue_of (dqueue r) (dropWhile (overdue s) xs)"
    and f2: "time (dqueue r) =
        (if dropWhile (overdue s) xs = [] then 0 else time (dqueue ?s0))"
    and f2': "keep_alive_timeout (dqueue r) = keep_alive_timeout (dqueue ?s0)"
    and f3: "\<forall>i. time_to_die (conns (dqueue r) i) = time_to_die (conns (dqueue ?s0) i)"
    and f4: "\<forall>i. flags (conns (dqueue r) i) =
            (if i \<in> set (takeWhile (overdue s) xs)
             then flags (conns (dqueue ?s0) i) AND NOT CONN_IS_ALIVE
             else flags (conns (dqueue ?s0) i))"
    by (elim exE conjE)
  have s': "s' = r"
    using k r by (simp add: death_queue_kill_waiting_def)
  have dl: "deadline (dqueue r) = deadline (dqueue s)"
    using f3 by (intro ext) (simp add: deadline_def)
  have al: "alive (dqueue r) i = (alive (dqueue s) i \<and> i \<notin> set (takeWhile (overdue s) xs))" for i
    using f4 by (auto simp add: alive_def flag_tests flag_bits)
  have kt: "keep_alive_timeout (dqueue r) = keep_alive_timeout (dqueue s)"
    using f2' by simp
  have ut: "unat (time (dqueue s) + 1) = unat (time (dqueue s)) + 1"
    using g by (intro unat_clock_tick) simp
  have kb: "unat (keep_alive_timeout (dqueue s)) < 2 ^ 32"
    using g by simp
  have so: "sorted (map (deadline (dqueue s)) (dropWhile (overdue s) xs))"
    using inv by (simp add: queue_inv_def dropWhile_eq_drop drop_map [symmetric] sorted_wrt_drop)
  have bnd: "\<forall>i\<in>set xs. unat (deadline (dqueue s) i)
      \<le> unat (time (dqueue s)) + unat (keep_alive_timeout (dqueue s))"
    using inv unfolding queue_inv_def by blast
  have bd: "\<forall>i\<in>set (dropWhile (overdue s) xs).
      unat (deadline (dqueue s) i) \<le> unat (time (dqueue r)) + unat (keep_alive_timeout (dqueue s))"
  proof
    fix i assume i: "i \<in> set (dropWhile (overdue s) xs)"
    then have "dropWhile (overdue s) xs \<noteq> []"
      by (metis empty_iff list.set(1))
    then have "time (dqueue r) = time (dqueue s) + 1"
      using f2 by (simp del: dropWhile_eq_Nil_conv)
    then have "unat (time (dqueue r)) = unat (time (dqueue s)) + 1"
      using ut by simp
    moreover have "i \<in> set xs"
      using i by (meson set_dropWhileD)
    ultimately show "unat (deadline (dqueue s) i)
        \<le> unat (time (dqueue r)) + unat (keep_alive_timeout (dqueue s))"
      using bnd by auto
  qed
  have ov: "unat (time (dqueue r)) + unat (keep_alive_timeout (dqueue s)) < 2 ^ 32"
    using f2 ut g kb by (simp split: if_splits)
  have me: "\<forall>i. (i \<in> set (dropWhile (overdue s) xs)) = alive (dqueue r) i"
    using inv by (simp add: set_dropWhile_distinct [OF dis] al queue_inv_def)
  show ?thesis
    unfolding s' queue_inv_def dl kt using f1 me so bd ov by simp
qed

lemma reachable_run_a: "reachable run_a"
proof -
  have "reachable start_state"
    unfolding start_state_def by (rule reachable.start) (simp add: zero_connection_def)
  moreover have "flags (conns (dqueue start_state) 7) AND CONN_IS_ALIVE = 0"
    by code_simp
  ultimately have "reachable (lwan_thread_add_client start_state 7)"
    by (rule reachable.handoff)
  moreover have "\<not> isl (spawn_coro (lwan_thread_add_client start_state 7) 7 (Some 7))"
    by code_simp
  then have "spawn_coro (lwan_thread_add_client start_state 7) 7 (Some 7) = Inr run_a"
    by (simp add: run_a_def)
  ultimately show ?thesis
    by (rule reachable.spawn)
qed

lemma reachable_run_b: "reachable run_b"
proof -
  have "flags (conns (dqueue run_a) 8) AND CONN_IS_ALIVE = 0"
    by code_simp
  with reachable_run_a have "reachable (lwan_thread_add_client run_a 8)"
    by (rule reachable.handoff)
  moreover have "\<not> isl (spawn_coro (lwan_thread_add_client run_a 8) 8 (Some 8))"
    by code_simp
  then have "spawn_coro (lwan_thread_add_client run_a 8) 8 (Some 8) = Inr run_b"
    by (simp add: run_b_def)
  ultimately show ?thesis
    by (rule reachable.spawn)
qed

lemma reachable_run_c: "reachable run_c"
proof -
  have t: "time (dqueue run_b) = 0"
    by code_simp
  have kt: "keep_alive_timeout (dqueue run_b) = 5"
    by code_simp
  have g: "unat (time (dqueue run_b)) + 1 + unat (keep_alive_timeout (dqueue run_b)) < 2 ^ 32"
    by (simp add: t kt)
  have n: "next (head (dqueue run_b)) = 7"
    by code_simp
  have d: "time_to_die (conns (dqueue run_b) 7) = 5"
    by code_simp
  have "death_queue_kill_waiting run_b = Some run_c"
    unfolding death_queue_kill_waiting_def run_c_def later_def
    by (subst kill_waiting_loop.simps)
      (simp add: death_queue_empty_def death_queue_idx_to_node_def deref_def n t d)
  with reachable_run_b g show ?thesis
    by (rule reachable.timeout)
qed

lemma reachable_run_d: "reachable run_d"
  unfolding run_d_def
proof (rule reachable.resume [OF reachable_run_c])
  show "flags (conns (dqueue run_c) 7) AND CONN_IS_ALIVE \<noteq> 0"
    by code_simp
  show "CONN_CORO_MAY_RESUME \<le> yield_result must_read_run"
    by code_simp
  show "flags_left must_read_run AND CONN_IS_ALIVE \<noteq> 0"
    by code_simp
  have "\<not> isl (resume_coro_if_needed run_c 7 must_read_run True)"
    by code_simp
  then show "resume_coro_if_needed run_c 7 must_read_run True =
      Inr (projr (resume_coro_if_needed run_c 7 must_read_run True))"
    by simp
  show "flags (conns (dqueue (projr (resume_coro_if_needed run_c 7 must_read_run True))) 7)
      AND (CONN_KEEP_ALIVE OR CONN_SHOULD_RESUME_CORO) \<noteq> 0"
    by code_simp
qed

section \<open>Removing a node whose links were reset\<close>

text \<open>
  C10. A node whose \<^verbatim>\<open>prev\<close> and \<^verbatim>\<open>next\<close> are both \<^verbatim>\<open>-1\<close> (as the reset at the end
  of \<^verbatim>\<open>death_queue_remove\<close> leaves it) has the sentinel as both neighbours. Removing it
  again therefore writes \<^verbatim>\<open>-1\<close> to \<^verbatim>\<open>dq->head.prev\<close> and \<^verbatim>\<open>dq->head.next\<close>: the queue
  tests as empty, whatever was linked in it.
\<close>

theorem remove_reset_node_empties_queue:
  assumes "prev (deref dq c) = - 1" and "next (deref dq c) = - 1"
  shows "next (head (death_queue_remove dq c)) = - 1
       \<and> prev (head (death_queue_remove dq c)) = - 1
       \<and> death_queue_empty (death_queue_remove dq c)"
  using assms
  by (simp add: death_queue_remove_def death_queue_empty_def Let_def setters
      deref_store head_store)

text \<open>
  With 7 and 8 queued, a first removal of 7 leaves 8 in the queue and resets the links of
  7. The second removal of 7 then empties the queue from the sentinel's side, although 8
  is still alive.
\<close>

theorem remove_reset_node_empties_queue_witness:
  "queue_of (dqueue two_clients) [7, 8]
   \<and> queue_of (death_queue_remove (dqueue two_clients) (Conn 7)) [8]
   \<and> \<not> death_queue_empty (death_queue_remove (dqueue two_clients) (Conn 7))
   \<and> prev (deref (death_queue_remove (dqueue two_clients) (Conn 7)) (Conn 7)) = - 1
   \<and> next (deref (death_queue_remove (dqueue two_clients) (Conn 7)) (Conn 7)) = - 1
   \<and> next (head
         (death_queue_remove (death_queue_remove (dqueue two_clients) (Conn 7)) (Conn 7))) = - 1
   \<and> prev (head
         (death_queue_remove (death_queue_remove (dqueue two_clients) (Conn 7)) (Conn 7))) = - 1
   \<and> death_queue_empty
       (death_queue_remove (death_queue_remove (dqueue two_clients) (Conn 7)) (Conn 7))
   \<and> flags (conns
         (death_queue_remove (death_queue_remove (dqueue two_clients) (Conn 7)) (Conn 7)) 8)
       AND CONN_IS_ALIVE \<noteq> 0"
proof -
  have q: "queue_of (dqueue two_clients) [7, 8]"
    by code_simp
  have q1: "queue_of (death_queue_remove (dqueue two_clients) (Conn 7)) [8]"
    by code_simp
  have ne: "\<not> death_queue_empty (death_queue_remove (dqueue two_clients) (Conn 7))"
    by code_simp
  have p: "prev (deref (death_queue_remove (dqueue two_clients) (Conn 7)) (Conn 7)) = - 1"
    by code_simp
  have n: "next (deref (death_queue_remove (dqueue two_clients) (Conn 7)) (Conn 7)) = - 1"
    by code_simp
  have a: "flags (conns
         (death_queue_remove (death_queue_remove (dqueue two_clients) (Conn 7)) (Conn 7)) 8)
       AND CONN_IS_ALIVE \<noteq> 0"
    by code_simp
  show ?thesis
    using remove_reset_node_empties_queue [OF p n] q q1 ne p n a by simp
qed

section \<open>Reprogramming the reactor on resume\<close>

text \<open>
  C1, as the source has it. Take a resume that runs the coroutine (the connection has a
  coroutine and \<^verbatim>\<open>CONN_SHOULD_RESUME_CORO\<close> is set) and whose yield is not an abort.
  The target arm is read when \<^verbatim>\<open>CONN_MUST_READ\<close> is set; otherwise it is write when the
  coroutine yielded \<^verbatim>\<open>CONN_CORO_MAY_RESUME\<close> and read when it yielded more. When
  \<^verbatim>\<open>CONN_MUST_READ\<close> is clear, or is set while the recorded arm is write, the entry is
  reprogrammed exactly when the target differs from the arm that \<^verbatim>\<open>CONN_WRITE_EVENTS\<close>
  records: then one \<^verbatim>\<open>EPOLL_CTL_MOD\<close> is made, with the mask of the target arm and the
  slot as user pointer, and the recorded arm becomes the target; when target and recorded
  arm coincide no call is made and the interest list and the recorded arm stay as they
  were.
\<close>

theorem resume_reprograms_iff_target_differs:
  assumes "coro (conns (dqueue s) fd) \<noteq> None"
    and "flags (conns (dqueue s) fd) AND CONN_SHOULD_RESUME_CORO \<noteq> 0"
    and "CONN_CORO_MAY_RESUME \<le> yield_result r"
    and "flags_left r AND CONN_MUST_READ = 0 \<or> flags_left r AND CONN_WRITE_EVENTS \<noteq> 0"
  shows "\<exists>s'. resume_coro_if_needed s fd r ok = Inr s' \<and>
     (if target_arm (flags_left r) (yield_result r) \<noteq> armed (flags_left r)
      then calls s' = calls s @
             Epoll_ctl EPOLL_CTL_MOD fd
               \<lparr>events = arm_events (target_arm (flags_left r) (yield_result r)),
                data_ptr = Some fd\<rparr> #
             (if ok then [] else [Status_perror ''epoll_ctl''])
         \<and> interest s' =
             (if ok
              then (interest s)(fd \<mapsto>
                     \<lparr>events = arm_events (target_arm (flags_left r) (yield_result r)),
                      data_ptr = Some fd\<rparr>)
              else interest s)
         \<and> armed (flags (conns (dqueue s') fd)) = target_arm (flags_left r) (yield_result r)
      else calls s' = calls s \<and> interest s' = interest s
         \<and> armed (flags (conns (dqueue s') fd)) = armed (flags_left r))"
  using assms
  by (auto simp add: resume_coro_if_needed_def Let_def reprogram_def epoll_ctl_def
      lwan_status_perror_def conns_set_flags target_arm_def armed_def arm_events_def
      events_by_write_flag_def flag_tests flag_bits deref_Conn)

theorem resume_reprograms_iff_target_differs_witness:
  "coro (conns (dqueue spawned_state) 7) \<noteq> None
   \<and> flags (conns (dqueue spawned_state) 7) AND CONN_SHOULD_RESUME_CORO \<noteq> 0
   \<and> CONN_CORO_MAY_RESUME \<le> yield_result may_resume_run
   \<and> flags_left may_resume_run AND CONN_MUST_READ = 0
   \<and> target_arm (flags_left may_resume_run) (yield_result may_resume_run) = Arm_write
   \<and> armed (flags_left may_resume_run) = Arm_read
   \<and> calls (projr (resume_coro_if_needed spawned_state 7 may_resume_run True)) =
       calls spawned_state @
       [Epoll_ctl EPOLL_CTL_MOD 7 \<lparr>events = arm_events Arm_write, data_ptr = Some 7\<rparr>]
   \<and> armed (flags (conns (dqueue (projr (resume_coro_if_needed spawned_state 7
        may_resume_run True))) 7)) = Arm_write"
proof -
  have h1: "coro (conns (dqueue spawned_state) 7) \<noteq> None"
    by code_simp
  have h2: "flags (conns (dqueue spawned_state) 7) AND CONN_SHOULD_RESUME_CORO \<noteq> 0"
    by code_simp
  have h3: "CONN_CORO_MAY_RESUME \<le> yield_result may_resume_run"
    by code_simp
  have h4: "flags_left may_resume_run AND CONN_MUST_READ = 0"
    by code_simp
  have t: "target_arm (flags_left may_resume_run) (yield_result may_resume_run) = Arm_write"
    by code_simp
  have a: "armed (flags_left may_resume_run) = Arm_read"
    by code_simp
  from resume_reprograms_iff_target_differs [OF h1 h2 h3 disjI1 [OF h4], of True]
  obtain s' where "resume_coro_if_needed spawned_state 7 may_resume_run True = Inr s'"
    and "calls s' = calls spawned_state @
       [Epoll_ctl EPOLL_CTL_MOD 7 \<lparr>events = arm_events Arm_write, data_ptr = Some 7\<rparr>]"
    and "armed (flags (conns (dqueue s') 7)) = Arm_write"
    by (auto simp add: t a)
  then show ?thesis
    using h1 h2 h3 h4 t a by simp
qed

text \<open>
  The rule in the specification's words fails on the first resume of a connection whose
  coroutine yields \<^verbatim>\<open>CONN_CORO_MAY_RESUME\<close> without \<^verbatim>\<open>CONN_MUST_READ\<close>: the arm it
  names as target (read) is the arm that is recorded, and the source reprograms the entry
  all the same.
\<close>

theorem spec_resume_rule_counterexample:
  "\<not> isl (resume_coro_if_needed spawned_state 7 may_resume_run True)
   \<and> spec_target_arm (flags_left may_resume_run) (yield_result may_resume_run) =
       armed (flags_left may_resume_run)
   \<and> calls (projr (resume_coro_if_needed spawned_state 7 may_resume_run True)) =
       calls spawned_state @
       [Epoll_ctl EPOLL_CTL_MOD 7 \<lparr>events = arm_events Arm_write, data_ptr = Some 7\<rparr>]"
  by code_simp

section \<open>Failure to create a coroutine\<close>

text \<open>
  C9. When \<^verbatim>\<open>coro_new\<close> returns \<^verbatim>\<open>NULL\<close> for a slot that passes the assertions of
  \<^verbatim>\<open>spawn_coro\<close>, the function reports the failure through \<^verbatim>\<open>lwan_status_error\<close> and
  returns: the slot has no coroutine, \<^verbatim>\<open>CONN_IS_ALIVE\<close> is not set, and the death queue
  (the sentinel, every slot of the table, the clock) is what it was.
\<close>

theorem spawn_coro_creation_failure:
  assumes "coro (conns (dqueue s) fd) = None"
    and "flags (conns (dqueue s) fd) AND CONN_IS_ALIVE = 0"
    and "flags (conns (dqueue s) fd) AND CONN_SHOULD_RESUME_CORO = 0"
  shows "\<exists>s'. spawn_coro s fd None = Inr s'
       \<and> calls s' = calls s @ [Status_error ''Could not create coroutine'']
       \<and> coro (conns (dqueue s') fd) = None
       \<and> flags (conns (dqueue s') fd) AND CONN_IS_ALIVE = 0
       \<and> dqueue s' = dqueue s
       \<and> interest s' = interest s"
proof -
  have "(conns (dqueue s) fd)\<lparr>coro := None\<rparr> = conns (dqueue s) fd"
    using assms(1) by (metis lwan_connection.surjective lwan_connection.update_convs(3))
  then have "set_coro (Conn fd) None (dqueue s) = dqueue s"
    by (simp add: set_coro_def store_def deref_def)
  then show ?thesis
    using assms by (simp add: spawn_coro_def Let_def lwan_status_error_def deref_Conn)
qed

theorem spawn_coro_creation_failure_witness:
  "coro (conns (dqueue spawned_state) 8) = None
   \<and> flags (conns (dqueue spawned_state) 8) AND CONN_IS_ALIVE = 0
   \<and> flags (conns (dqueue spawned_state) 8) AND CONN_SHOULD_RESUME_CORO = 0
   \<and> calls (projr (spawn_coro spawned_state 8 None)) =
       calls spawned_state @ [Status_error ''Could not create coroutine'']
   \<and> dqueue (projr (spawn_coro spawned_state 8 None)) = dqueue spawned_state"
proof -
  have h1: "coro (conns (dqueue spawned_state) 8) = None"
    by code_simp
  have h2: "flags (conns (dqueue spawned_state) 8) AND CONN_IS_ALIVE = 0"
    by code_simp
  have h3: "flags (conns (dqueue spawned_state) 8) AND CONN_SHOULD_RESUME_CORO = 0"
    by code_simp
  from spawn_coro_creation_failure [OF h1 h2 h3]
  obtain s' where "spawn_coro spawned_state 8 None = Inr s'"
    and "calls s' = calls spawned_state @ [Status_error ''Could not create coroutine'']"
    and "dqueue s' = dqueue spawned_state"
    by auto
  then show ?thesis
    using h1 h2 h3 by simp
qed

section \<open>The user pointer of a handed-off descriptor\<close>

text \<open>
  C3 asks that a handed-off descriptor be registered edge-triggered with the address of
  its slot as user pointer, so that no event for a connection carries a null pointer. The
  source misses this: \<^verbatim>\<open>accept_nudge\<close> registers the descriptor with a null user
  pointer, and the pointer to the slot only arrives with the first \<^verbatim>\<open>EPOLL_CTL_MOD\<close> of
  \<^verbatim>\<open>resume_coro_if_needed\<close>. Here descriptor 7 is handed off and its coroutine yields
  \<^verbatim>\<open>CONN_CORO_FINISHED\<close> on its first run: no reprogramming is due, and the connection
  stays alive and registered for edge-triggered reading with a null user pointer.
\<close>

theorem handoff_registers_null_pointer:
  "\<not> isl (accept_nudge (lwan_thread_add_client start_state 7) True [client 7 finished_run])
   \<and> flags (conns (dqueue (projr (accept_nudge (lwan_thread_add_client start_state 7) True
        [client 7 finished_run]))) 7) AND CONN_IS_ALIVE \<noteq> 0
   \<and> interest (projr (accept_nudge (lwan_thread_add_client start_state 7) True
        [client 7 finished_run])) 7 =
       Some \<lparr>events = EPOLLIN OR EPOLLRDHUP OR EPOLLERR OR EPOLLET, data_ptr = None\<rparr>"
  by code_simp

section \<open>The recorded arm and the registered interest\<close>

text \<open>
  C4 asks that \<^verbatim>\<open>CONN_WRITE_EVENTS\<close> be set exactly when the kernel holds write
  interest for the connection. The source misses this on the \<^verbatim>\<open>CONN_MUST_READ\<close> path.
  Here descriptor 7 is handed off and its coroutine, finding no input yet, sets
  \<^verbatim>\<open>CONN_MUST_READ\<close> and yields \<^verbatim>\<open>CONN_CORO_MAY_RESUME\<close>. The first resume reprograms
  the entry for reading, as it was, and flips \<^verbatim>\<open>CONN_WRITE_EVENTS\<close>: the flags of the
  live connection now record the write arm while the kernel holds read interest.
\<close>

theorem must_read_breaks_recorded_arm:
  "\<not> isl (accept_nudge (lwan_thread_add_client start_state 7) True [client 7 must_read_run])
   \<and> flags (conns (dqueue (projr (accept_nudge (lwan_thread_add_client start_state 7) True
        [client 7 must_read_run]))) 7) AND CONN_IS_ALIVE \<noteq> 0
   \<and> armed (flags (conns (dqueue (projr (accept_nudge (lwan_thread_add_client start_state 7)
        True [client 7 must_read_run]))) 7)) = Arm_write
   \<and> map_option interest_arm
       (interest (projr (accept_nudge (lwan_thread_add_client start_state 7) True
          [client 7 must_read_run])) 7) = Some Arm_read"
  by code_simp

section \<open>Dead slots in the death queue\<close>

text \<open>
  C2 asks that every slot linked in the death queue be alive and have a coroutine, and
  that a connection destroyed after an abort be no longer linked. The source misses this
  when a coroutine aborts on an event. Here descriptors 7 and 8 are handed off and both
  coroutines wait for input; an event is then reported for 7 and its coroutine aborts.
  \<^verbatim>\<open>resume_coro_if_needed\<close> destroys the connection, and \<^verbatim>\<open>thread_io_loop\<close> goes on
  to \<^verbatim>\<open>death_queue_move_to_last\<close>: the second removal of slot 7 empties the queue and
  the insertion links the dead slot as its only member. Slot 7 is linked with
  \<^verbatim>\<open>CONN_IS_ALIVE\<close> clear and no coroutine; slot 8 is alive and no longer reachable from
  the sentinel.
\<close>

theorem abort_links_dead_slot:
  "\<not> isl (process_events two_clients [conn_event 7 EPOLLIN abort_run])
   \<and> next (head (dqueue (projr (process_events two_clients [conn_event 7 EPOLLIN abort_run])))) = 7
   \<and> prev (head (dqueue (projr (process_events two_clients [conn_event 7 EPOLLIN abort_run])))) = 7
   \<and> next (conns (dqueue (projr (process_events two_clients [conn_event 7 EPOLLIN abort_run]))) 7)
       = - 1
   \<and> flags (conns (dqueue (projr (process_events two_clients [conn_event 7 EPOLLIN abort_run]))) 7)
       AND CONN_IS_ALIVE = 0
   \<and> coro (conns (dqueue (projr (process_events two_clients [conn_event 7 EPOLLIN abort_run]))) 7)
       = None
   \<and> flags (conns (dqueue (projr (process_events two_clients [conn_event 7 EPOLLIN abort_run]))) 8)
       AND CONN_IS_ALIVE \<noteq> 0"
  by code_simp

section \<open>Moving a connection to the tail\<close>

text \<open>
  C7, as the source has it. For a connection \<open>c\<close> linked in the queue,
  \<^verbatim>\<open>death_queue_move_to_last\<close> sets its deadline to \<^verbatim>\<open>dq->time + keep_alive_timeout\<close>
  (in 32-bit unsigned arithmetic) when \<^verbatim>\<open>CONN_KEEP_ALIVE\<close> or
  \<^verbatim>\<open>CONN_SHOULD_RESUME_CORO\<close> is set and to \<^verbatim>\<open>dq->time\<close> otherwise, and the queue then
  holds the other connections in their former order followed by \<open>c\<close>. The deadlines, flags
  and coroutines of all other connections are unchanged, slots outside the queue are
  unchanged altogether, and so is the clock. The links of the other members are not left
  alone: the former neighbours of \<open>c\<close> are linked to each other and the former tail to
  \<open>c\<close>, which is what the new sequence says.
\<close>

theorem move_to_last_effect:
  assumes "queue_of q xs" and "c \<in> set xs"
  shows "queue_of (death_queue_move_to_last q (Conn c)) (remove1 c xs @ [c])
       \<and> time_to_die (conns (death_queue_move_to_last q (Conn c)) c) =
           (if flags (conns q c) AND (CONN_KEEP_ALIVE OR CONN_SHOULD_RESUME_CORO) \<noteq> 0
            then time q + ucast (keep_alive_timeout q) else time q)
       \<and> (\<forall>i. i \<noteq> c \<longrightarrow>
             time_to_die (conns (death_queue_move_to_last q (Conn c)) i) = time_to_die (conns q i))
       \<and> (\<forall>i. flags (conns (death_queue_move_to_last q (Conn c)) i) = flags (conns q i)
             \<and> coro (conns (death_queue_move_to_last q (Conn c)) i) = coro (conns q i))
       \<and> (\<forall>i. i \<notin> set xs \<longrightarrow> conns (death_queue_move_to_last q (Conn c)) i = conns q i)
       \<and> time (death_queue_move_to_last q (Conn c)) = time q
       \<and> keep_alive_timeout (death_queue_move_to_last q (Conn c)) = keep_alive_timeout q"
  using move_to_last_queue [OF assms] move_to_last_outside [OF assms]
  by (simp add: conns_deref move_to_last_fields move_deadline_def)

theorem move_to_last_effect_witness:
  "queue_of (dqueue two_clients) [7, 8]
   \<and> queue_of (death_queue_move_to_last (dqueue two_clients) (Conn 7)) [8, 7]
   \<and> time_to_die (conns (death_queue_move_to_last (dqueue two_clients) (Conn 7)) 7) = 5
   \<and> time_to_die (conns (death_queue_move_to_last (dqueue two_clients) (Conn 7)) 8) =
       time_to_die (conns (dqueue two_clients) 8)"
proof -
  have q: "queue_of (dqueue two_clients) [7, 8]"
    by code_simp
  have m: "(7::nat) \<in> set [7, 8]"
    by simp
  have f: "flags (conns (dqueue two_clients) 7) AND (CONN_KEEP_ALIVE OR CONN_SHOULD_RESUME_CORO) \<noteq> 0"
    by code_simp
  have t: "time (dqueue two_clients) + ucast (keep_alive_timeout (dqueue two_clients)) = 5"
    by code_simp
  show ?thesis
    using move_to_last_effect [OF q m] q f t by simp
qed

text \<open>
  The links of other connections do change: with 7 and 8 queued, moving 7 to the tail
  rewrites both links of 8.
\<close>

theorem move_to_last_relinks_neighbours:
  "queue_of (dqueue two_clients) [7, 8]
   \<and> prev (conns (dqueue two_clients) 8) = 7
   \<and> next (conns (dqueue two_clients) 8) = - 1
   \<and> prev (conns (death_queue_move_to_last (dqueue two_clients) (Conn 7)) 8) = - 1
   \<and> next (conns (death_queue_move_to_last (dqueue two_clients) (Conn 7)) 8) = 7"
  by code_simp

section \<open>Round trip and idempotence\<close>

text \<open>
  C8. On a queue holding the slots \<open>xs\<close>: inserting a slot \<open>c\<close> that is not linked and
  removing it again restores the sentinel, every other slot of the table and the sequence
  of the queue; the slot \<open>c\<close> itself keeps its fields but for its own links, which the
  removal resets to \<^verbatim>\<open>-1\<close>. And for a linked \<open>c\<close>, moving it to the tail twice gives
  the same queue (every link and every deadline) as moving it once.
\<close>

theorem insert_remove_roundtrip_move_idempotent:
  assumes "queue_of q xs"
  shows "(c \<notin> set xs \<longrightarrow>
            head (death_queue_remove (death_queue_insert q (Conn c)) (Conn c)) = head q
          \<and> (\<forall>i. i \<noteq> c \<longrightarrow>
                conns (death_queue_remove (death_queue_insert q (Conn c)) (Conn c)) i = conns q i)
          \<and> conns (death_queue_remove (death_queue_insert q (Conn c)) (Conn c)) c =
              (conns q c)\<lparr>prev := - 1, next := - 1\<rparr>
          \<and> time (death_queue_remove (death_queue_insert q (Conn c)) (Conn c)) = time q
          \<and> keep_alive_timeout (death_queue_remove (death_queue_insert q (Conn c)) (Conn c)) =
              keep_alive_timeout q
          \<and> queue_of (death_queue_remove (death_queue_insert q (Conn c)) (Conn c)) xs)
       \<and> (c \<in> set xs \<longrightarrow>
            death_queue_move_to_last (death_queue_move_to_last q (Conn c)) (Conn c) =
            death_queue_move_to_last q (Conn c))"
proof (intro conjI impI)
  assume c: "c \<in> set xs"
  show "death_queue_move_to_last (death_queue_move_to_last q (Conn c)) (Conn c) =
      death_queue_move_to_last q (Conn c)"
    using assms c by (rule move_to_last_twice)
next
  assume c: "c \<notin> set xs"
  note e = insert_then_remove [OF assms c]
  show "head (death_queue_remove (death_queue_insert q (Conn c)) (Conn c)) = head q"
    unfolding e by (simp add: setters head_store)
  show "\<forall>i. i \<noteq> c \<longrightarrow>
      conns (death_queue_remove (death_queue_insert q (Conn c)) (Conn c)) i = conns q i"
    unfolding e by (simp add: setters conns_store)
  show "conns (death_queue_remove (death_queue_insert q (Conn c)) (Conn c)) c =
      (conns q c)\<lparr>prev := - 1, next := - 1\<rparr>"
    unfolding e by (simp add: setters conns_store deref_store deref_Conn)
  show "time (death_queue_remove (death_queue_insert q (Conn c)) (Conn c)) = time q"
    by simp
  show "keep_alive_timeout (death_queue_remove (death_queue_insert q (Conn c)) (Conn c)) =
      keep_alive_timeout q"
    by simp
  have "queue_of (death_queue_insert q (Conn c)) (xs @ [c])"
    using assms c by (rule queue_of_insert)
  from queue_of_remove [OF this, of c]
  show "queue_of (death_queue_remove (death_queue_insert q (Conn c)) (Conn c)) xs"
    using c by (simp add: remove1_append)
qed

theorem insert_remove_roundtrip_move_idempotent_witness:
  "queue_of (dqueue two_clients) [7, 8]
   \<and> head (death_queue_remove (death_queue_insert (dqueue two_clients) (Conn 9)) (Conn 9)) =
       head (dqueue two_clients)
   \<and> conns (death_queue_remove (death_queue_insert (dqueue two_clients) (Conn 9)) (Conn 9)) 8 =
       conns (dqueue two_clients) 8
   \<and> queue_of (death_queue_remove (death_queue_insert (dqueue two_clients) (Conn 9)) (Conn 9))
       [7, 8]
   \<and> death_queue_move_to_last (death_queue_move_to_last (dqueue two_clients) (Conn 7)) (Conn 7) =
       death_queue_move_to_last (dqueue two_clients) (Conn 7)"
proof -
  have q: "queue_of (dqueue two_clients) [7, 8]"
    by code_simp
  show ?thesis
    using insert_remove_roundtrip_move_idempotent [OF q, of 9]
      insert_remove_roundtrip_move_idempotent [OF q, of 7] q
    by simp
qed

section \<open>Eviction on timeout\<close>

text \<open>
  C6. \<^verbatim>\<open>death_queue_kill_waiting\<close> adds one to \<^verbatim>\<open>dq->time\<close> and then destroys the
  connection at the head of the queue as long as its deadline is not above the new clock.
  Whenever the function returns with the queue empty, the clock is 0. On a queue holding
  \<open>xs\<close> the function returns, and it has destroyed exactly the longest prefix of \<open>xs\<close>
  whose deadlines are at most the new clock: the queue holds the rest, which starts with
  the first connection whose deadline is above it; the evicted slots have lost their
  coroutine and \<^verbatim>\<open>CONN_IS_ALIVE\<close> and those that were alive were closed, in order; the
  clock is 0 if nothing is left and the incremented value otherwise.
\<close>

theorem kill_waiting_evicts_overdue_prefix:
  "(death_queue_kill_waiting s = Some r \<longrightarrow>
      death_queue_empty (dqueue r) \<longrightarrow> time (dqueue r) = 0)
   \<and> (queue_of (dqueue s) xs \<longrightarrow>
        (\<exists>s'. death_queue_kill_waiting s = Some s'
           \<and> queue_of (dqueue s') (dropWhile (overdue s) xs)
           \<and> time (dqueue s') =
               (if dropWhile (overdue s) xs = [] then 0 else time (dqueue s) + 1)
           \<and> (\<forall>i. coro (conns (dqueue s') i) =
                 (if i \<in> set (takeWhile (overdue s) xs) then None
                  else coro (conns (dqueue s) i)))
           \<and> (\<forall>i. flags (conns (dqueue s') i) =
                 (if i \<in> set (takeWhile (overdue s) xs)
                  then flags (conns (dqueue s) i) AND NOT CONN_IS_ALIVE
                  else flags (conns (dqueue s) i)))
           \<and> (\<forall>i. time_to_die (conns (dqueue s') i) = time_to_die (conns (dqueue s) i))
           \<and> calls s' = calls s @
               map Close
                 (filter (\<lambda>i. flags (conns (dqueue s) i) AND CONN_IS_ALIVE \<noteq> 0)
                    (takeWhile (overdue s) xs))))"
proof (intro conjI impI)
  assume "death_queue_kill_waiting s = Some r" and "death_queue_empty (dqueue r)"
  then show "time (dqueue r) = 0"
    using kill_waiting_loop_empty_time [of _ r] by (simp add: death_queue_kill_waiting_def)
next
  assume q: "queue_of (dqueue s) xs"
  let ?s0 = "s\<lparr>dqueue := (dqueue s)\<lparr>time := time (dqueue s) + 1\<rparr>\<rparr>"
  have a: "alive (dqueue ?s0) = (\<lambda>i. flags (conns (dqueue s) i) AND CONN_IS_ALIVE \<noteq> 0)"
    by (rule ext) (simp add: alive_def)
  have "queue_of (dqueue ?s0) xs"
    using q by simp
  from kill_waiting_loop_queue [OF this, unfolded expired_tick a]
  obtain s' where r: "kill_waiting_loop ?s0 = Some s'"
    and f1: "queue_of (dqueue s') (dropWhile (overdue s) xs)"
    and f2: "time (dqueue s') =
        (if dropWhile (overdue s) xs = [] then 0 else time (dqueue ?s0))"
    and f3: "\<forall>i. time_to_die (conns (dqueue s') i) = time_to_die (conns (dqueue ?s0) i)"
    and f4: "\<forall>i. flags (conns (dqueue s') i) =
            (if i \<in> set (takeWhile (overdue s) xs)
             then flags (conns (dqueue ?s0) i) AND NOT CONN_IS_ALIVE
             else flags (conns (dqueue ?s0) i))"
    and f5: "\<forall>i. coro (conns (dqueue s') i) =
            (if i \<in> set (takeWhile (overdue s) xs) then None
             else coro (conns (dqueue ?s0) i))"
    and f6: "calls s' = calls ?s0 @
          map Close
            (filter (\<lambda>i. flags (conns (dqueue s) i) AND CONN_IS_ALIVE \<noteq> 0)
               (takeWhile (overdue s) xs))"
    by (elim exE conjE)
  have g2: "time (dqueue s') =
        (if dropWhile (overdue s) xs = [] then 0 else time (dqueue s) + 1)"
    using f2 by simp
  have g3: "\<forall>i. time_to_die (conns (dqueue s') i) = time_to_die (conns (dqueue s) i)"
    using f3 by simp
  have g4: "\<forall>i. flags (conns (dqueue s') i) =
            (if i \<in> set (takeWhile (overdue s) xs)
             then flags (conns (dqueue s) i) AND NOT CONN_IS_ALIVE
             else flags (conns (dqueue s) i))"
    using f4 by simp
  have g5: "\<forall>i. coro (conns (dqueue s') i) =
            (if i \<in> set (takeWhile (overdue s) xs) then None
             else coro (conns (dqueue s) i))"
    using f5 by simp
  have g6: "calls s' = calls s @
          map Close
            (filter (\<lambda>i. flags (conns (dqueue s) i) AND CONN_IS_ALIVE \<noteq> 0)
               (takeWhile (overdue s) xs))"
    using f6 by simp
  have g0: "death_queue_kill_waiting s = Some s'"
    using r by (simp add: death_queue_kill_waiting_def)
  show "\<exists>s'. death_queue_kill_waiting s = Some s'
           \<and> queue_of (dqueue s') (dropWhile (overdue s) xs)
           \<and> time (dqueue s') =
               (if dropWhile (overdue s) xs = [] then 0 else time (dqueue s) + 1)
           \<and> (\<forall>i. coro (conns (dqueue s') i) =
                 (if i \<in> set (takeWhile (overdue s) xs) then None
                  else coro (conns (dqueue s) i)))
           \<and> (\<forall>i. flags (conns (dqueue s') i) =
                 (if i \<in> set (takeWhile (overdue s) xs)
                  then flags (conns (dqueue s) i) AND NOT CONN_IS_ALIVE
                  else flags (conns (dqueue s) i)))
           \<and> (\<forall>i. time_to_die (conns (dqueue s') i) = time_to_die (conns (dqueue s) i))
           \<and> calls s' = calls s @
               map Close
                 (filter (\<lambda>i. flags (conns (dqueue s) i) AND CONN_IS_ALIVE \<noteq> 0)
                    (takeWhile (overdue s) xs))"
    by (intro exI [of _ s'] conjI g0 f1 g2 g3 g4 g5 g6)
qed


theorem kill_waiting_evicts_overdue_prefix_witness:
  "queue_of (dqueue aged_clients) [7, 8]
   \<and> overdue aged_clients 7 \<and> \<not> overdue aged_clients 8
   \<and> (\<exists>r. death_queue_kill_waiting aged_clients = Some r
         \<and> queue_of (dqueue r) [8] \<and> time (dqueue r) = 5
         \<and> coro (conns (dqueue r) 7) = None
         \<and> flags (conns (dqueue r) 7) AND CONN_IS_ALIVE = 0
         \<and> calls r = calls aged_clients @ [Close 7])
   \<and> (\<exists>r. death_queue_kill_waiting (later 4 two_clients) = Some r
         \<and> death_queue_empty (dqueue r) \<and> time (dqueue r) = 0)"
proof -
  have q: "queue_of (dqueue aged_clients) [7, 8]"
    by code_simp
  have o: "overdue aged_clients 7" "\<not> overdue aged_clients 8"
    by code_simp+
  have a: "flags (conns (dqueue aged_clients) 7) AND CONN_IS_ALIVE \<noteq> 0"
    by code_simp
  have t: "time (dqueue aged_clients) + 1 = 5"
    by code_simp
  from kill_waiting_evicts_overdue_prefix [of aged_clients _ "[7, 8]", THEN conjunct2, rule_format, OF q]
  obtain r where r: "death_queue_kill_waiting aged_clients = Some r"
    and "queue_of (dqueue r) [8]" "time (dqueue r) = 5"
    and "coro (conns (dqueue r) 7) = None"
    and "flags (conns (dqueue r) 7) = flags (conns (dqueue aged_clients) 7) AND NOT CONN_IS_ALIVE"
    and "calls r = calls aged_clients @ [Close 7]"
    using o a t by auto
  then have part1: "\<exists>r. death_queue_kill_waiting aged_clients = Some r
         \<and> queue_of (dqueue r) [8] \<and> time (dqueue r) = 5
         \<and> coro (conns (dqueue r) 7) = None
         \<and> flags (conns (dqueue r) 7) AND CONN_IS_ALIVE = 0
         \<and> calls r = calls aged_clients @ [Close 7]"
    by (auto simp add: flag_tests flag_bits)
  have q2: "queue_of (dqueue (later 4 two_clients)) [7, 8]"
    by code_simp
  have o2: "overdue (later 4 two_clients) 7" "overdue (later 4 two_clients) 8"
    by code_simp+
  from kill_waiting_evicts_overdue_prefix [of "later 4 two_clients" _ "[7, 8]", THEN conjunct2, rule_format, OF q2]
  obtain r2 where r2: "death_queue_kill_waiting (later 4 two_clients) = Some r2"
    and e: "queue_of (dqueue r2) []"
    using o2 by auto
  have "death_queue_empty (dqueue r2)"
    using queue_of_head_next [OF e] by (simp add: death_queue_empty_def)
  moreover from this have "time (dqueue r2) = 0"
    using kill_waiting_evicts_overdue_prefix [of "later 4 two_clients" r2, THEN conjunct1] r2
    by simp
  ultimately have part2: "\<exists>r. death_queue_kill_waiting (later 4 two_clients) = Some r
         \<and> death_queue_empty (dqueue r) \<and> time (dqueue r) = 0"
    using r2 by auto
  show ?thesis
    using q o part1 part2 by simp
qed

section \<open>Deadlines along the queue\<close>

text \<open>
  C5, as the source has it. In every state of a run as defined above (handoff, spawn, a
  resume that does not abort followed by the move to the tail of a connection that has
  \<^verbatim>\<open>CONN_KEEP_ALIVE\<close> or \<^verbatim>\<open>CONN_SHOULD_RESUME_CORO\<close> set, hangup, and timeouts while
  the clock plus one plus the keep-alive timeout stays below \<open>2\<^sup>3\<^sup>2\<close>), the links form
  a queue, and the deadlines of its connections, read along \<^verbatim>\<open>next\<close> from the sentinel,
  do not decrease.
\<close>

theorem reachable_deadlines_sorted:
  assumes "reachable s"
  shows "\<exists>xs. queue_of (dqueue s) xs
      \<and> sorted (map (\<lambda>i. time_to_die (conns (dqueue s) i)) xs)"
proof -
  have "\<exists>xs. queue_inv (dqueue s) xs"
    using assms
  proof (induction rule: reachable.induct)
    case (start table q kat itr cs)
    then show ?case
      using queue_inv_start [of table q kat] by auto
  next
    case (handoff s fd)
    then show ?case
      using queue_inv_handoff [of s _ fd] by (auto simp add: alive_def)
  next
    case (spawn s fd c s')
    then show ?case
      using queue_inv_spawn [of s _ fd c s'] by auto
  next
    case (resume s fd r ok s1)
    then obtain xs where inv: "queue_inv (dqueue s) xs"
      by auto
    have al: "alive (dqueue s) fd"
      using resume.hyps by (simp add: alive_def)
    from resume_dqueue [OF resume.hyps(5) resume.hyps(3) al resume.hyps(4)]
    obtain f where f: "dqueue s1 = set_flags (Conn fd) f (dqueue s)" "f AND CONN_IS_ALIVE \<noteq> 0"
      by auto
    have "f AND (CONN_KEEP_ALIVE OR CONN_SHOULD_RESUME_CORO) \<noteq> 0"
      using resume.hyps(6) by (simp add: f(1) conns_deref setter_fields)
    from queue_inv_move [OF inv f(2) al this]
    show ?case
      by (auto simp add: f(1))
  next
    case (hangup s fd)
    then show ?case
      using queue_inv_hangup [of s _ fd] by (auto simp add: alive_def)
  next
    case (timeout s s')
    then show ?case
      using queue_inv_timeout [of s _ s'] by auto
  qed
  then show ?thesis
    by (auto simp add: queue_inv_def deadline_def [abs_def])
qed

theorem reachable_deadlines_sorted_witness:
  "reachable run_d
   \<and> queue_of (dqueue run_d) [8, 7]
   \<and> time_to_die (conns (dqueue run_d) 8) = 5
   \<and> time_to_die (conns (dqueue run_d) 7) = 6
   \<and> (\<exists>xs. queue_of (dqueue run_d) xs
         \<and> sorted (map (\<lambda>i. time_to_die (conns (dqueue run_d) i)) xs))"
proof -
  have "queue_of (dqueue run_d) [8, 7]"
    by code_simp
  moreover have "time_to_die (conns (dqueue run_d) 8) = 5"
    "time_to_die (conns (dqueue run_d) 7) = 6"
    by code_simp+
  ultimately show ?thesis
    using reachable_deadlines_sorted [OF reachable_run_d] reachable_run_d by simp
qed

text \<open>
  Without the condition on the flags the order fails. With 7 and 8 queued at tick 0 and
  a timeout of 5, an event for 7 whose coroutine yields \<^verbatim>\<open>CONN_CORO_FINISHED\<close> clears
  \<^verbatim>\<open>CONN_SHOULD_RESUME_CORO\<close>; \<^verbatim>\<open>death_queue_move_to_last\<close> then marks 7 to be reaped
  at once, with the deadline 0, behind 8 with the deadline 5.
\<close>

theorem finished_connection_breaks_deadline_order:
  "\<not> isl (process_events two_clients [conn_event 7 EPOLLIN finished_run])
   \<and> queue_of (dqueue (projr (process_events two_clients [conn_event 7 EPOLLIN finished_run])))
       [8, 7]
   \<and> time_to_die
       (conns (dqueue (projr (process_events two_clients [conn_event 7 EPOLLIN finished_run]))) 8)
       = 5
   \<and> time_to_die
       (conns (dqueue (projr (process_events two_clients [conn_event 7 EPOLLIN finished_run]))) 7)
       = 0
   \<and> \<not> sorted
       (map (\<lambda>i. time_to_die
          (conns (dqueue (projr (process_events two_clients
             [conn_event 7 EPOLLIN finished_run]))) i)) [8, 7])"
  by code_simp

end
